theory Spec2Isabelle
  imports Main "HOL-Library.Word"
begin

unbundle bit_operations_syntax

section \<open>Host values\<close>

text \<open>
  A JavaScript string is a sequence of 16-bit code units; a \<open>Uint8Array\<close> holds bytes.
  Numbers that cross the boundary (pointers, lengths, status codes) are integers.
\<close>

type_synonym byte = "8 word"
type_synonym jsstring = "16 word list"

text \<open>A string literal of the source, whose characters are all ASCII.\<close>

definition js_lit :: "string \<Rightarrow> jsstring" where
  "js_lit cs = map of_char cs"

section \<open>The enumeration \<open>Status\<close>\<close>

text \<open>
  \<open>Status\<close> is imported from \<open>./constants.ts\<close>, which is not among the sources. It is a
  parameter of the model: the members of the TypeScript enum, name and numeric value, in
  declaration order. TypeScript compiles a numeric enum to an object that is filled, member
  by member, by \<open>Status[Status["Name"] = value] = "Name"\<close>: a forward property from the
  name to the value and a reverse property from the value to the name, a later assignment
  replacing an earlier one. A member name is an identifier, so it is never the decimal
  form of a number, and the two families of keys are kept as two maps. Reading a property
  that was never assigned gives \<open>undefined\<close>, here \<open>None\<close>.
\<close>

type_synonym Status_enum = "(string \<times> int) list"

definition Status_member :: "Status_enum \<Rightarrow> string \<Rightarrow> int option" where
  "Status_member Status name =
     fold (\<lambda>(n, v) obj. obj(n \<mapsto> v)) Status Map.empty name"

definition Status_reverse :: "Status_enum \<Rightarrow> int \<Rightarrow> string option" where
  "Status_reverse Status v =
     fold (\<lambda>(n, v) obj. obj(v \<mapsto> n)) Status Map.empty v"

section \<open>The foreign module\<close>

text \<open>
  The module instance owns a linear memory (\<open>wasm.memory.buffer\<close>) and some internal
  state of its own. Each export the source calls is a function on that world; an export
  may change the memory as well as the internal state, and returns a number where the
  source uses its result. Exports do not raise: a trap of the module is outside this layer.
\<close>

record 'i world =
  buffer :: "byte list"
  internal :: 'i

record 'i Wasm =
  malloc :: "int \<Rightarrow> 'i world \<Rightarrow> int \<times> 'i world"
  free :: "int \<Rightarrow> 'i world \<Rightarrow> 'i world"
  str_len :: "int \<Rightarrow> 'i world \<Rightarrow> int \<times> 'i world"
  get_sqlite_error_str :: "'i world \<Rightarrow> int \<times> 'i world"
  get_status :: "'i world \<Rightarrow> int \<times> 'i world"

section \<open>Failures\<close>

record SqliteError =
  message :: jsstring
  code :: "int option"
  name :: string

text \<open>
  What a call of this layer can throw: a \<open>SqliteError\<close>, the \<open>RangeError\<close> of the typed
  array constructor, or whatever a caller-supplied closure throws.
\<close>

datatype 'x exn = Thrown_SqliteError SqliteError | RangeError | Thrown 'x

section \<open>Typed array views\<close>

text \<open>
  \<open>new Uint8Array(buffer, byteOffset, length)\<close> makes a view of \<open>length\<close> bytes at
  \<open>byteOffset\<close>. It throws a \<open>RangeError\<close> when the offset or the length is negative or
  when the window does not fit in the buffer. A view is kept as its offset and length.
\<close>

type_synonym view = "nat \<times> nat"

definition Uint8Array_new :: "byte list \<Rightarrow> int \<Rightarrow> int \<Rightarrow> 'x exn + view" where
  "Uint8Array_new buf byteOffset len =
     (if byteOffset < 0 \<or> len < 0 \<or> int (length buf) < byteOffset + len
      then Inl RangeError
      else Inr (nat byteOffset, nat len))"

text \<open>The elements a view shows.\<close>

definition view_bytes :: "view \<Rightarrow> byte list \<Rightarrow> byte list" where
  "view_bytes v buf = take (snd v) (drop (fst v) buf)"

text \<open>
  \<open>mem.set(src)\<close> copies \<open>src\<close> to the start of the view and throws a \<open>RangeError\<close>
  when \<open>src\<close> is longer than the view.
\<close>

definition view_set :: "view \<Rightarrow> byte list \<Rightarrow> byte list \<Rightarrow> 'x exn + byte list" where
  "view_set v src buf =
     (if snd v < length src then Inl RangeError
      else Inr (take (fst v) buf @ src @ drop (fst v + length src) buf))"

text \<open>\<open>mem[i] = b\<close> stores one element; an index outside the view is ignored.\<close>

definition view_put :: "view \<Rightarrow> nat \<Rightarrow> byte \<Rightarrow> byte list \<Rightarrow> byte list" where
  "view_put v i b buf = (if i < snd v then buf[fst v + i := b] else buf)"

section \<open>Text encoding\<close>

text \<open>
  \<open>new TextEncoder().encode(str)\<close> is a platform function. Following the Encoding
  standard it first turns the string into scalar values, pairing surrogates and putting
  U+FFFD for every unpaired one, and then writes each scalar value in UTF-8.
\<close>

definition is_lead :: "16 word \<Rightarrow> bool" where
  "is_lead c = (0xD800 \<le> c \<and> c \<le> 0xDBFF)"

definition is_trail :: "16 word \<Rightarrow> bool" where
  "is_trail c = (0xDC00 \<le> c \<and> c \<le> 0xDFFF)"

fun code_points :: "jsstring \<Rightarrow> nat list" where
  "code_points [] = []"
| "code_points [c] = (if is_lead c \<or> is_trail c then [0xFFFD] else [unat c])"
| "code_points (c # d # cs) =
     (if is_lead c then
        (if is_trail d
         then (0x10000 + (unat c - 0xD800) * 0x400 + (unat d - 0xDC00)) # code_points cs
         else 0xFFFD # code_points (d # cs))
      else if is_trail c then 0xFFFD # code_points (d # cs)
      else unat c # code_points (d # cs))"

definition utf8_bytes :: "nat \<Rightarrow> nat list" where
  "utf8_bytes cp =
     (if cp < 0x80 then [cp]
      else if cp < 0x800 then
        [drop_bit 6 cp + 0xC0, 0x80 OR (cp AND 0x3F)]
      else if cp < 0x10000 then
        [drop_bit 12 cp + 0xE0, 0x80 OR (drop_bit 6 cp AND 0x3F), 0x80 OR (cp AND 0x3F)]
      else
        [drop_bit 18 cp + 0xF0, 0x80 OR (drop_bit 12 cp AND 0x3F),
         0x80 OR (drop_bit 6 cp AND 0x3F), 0x80 OR (cp AND 0x3F)])"

definition utf8_encode :: "nat list \<Rightarrow> byte list" where
  "utf8_encode cps = map word_of_nat (concat (map utf8_bytes cps))"

definition TextEncoder_encode :: "jsstring \<Rightarrow> byte list" where
  "TextEncoder_encode str = utf8_encode (code_points str)"

section \<open>Text decoding\<close>

subsection \<open>The short path of \<open>getStr\<close>\<close>

text \<open>
  \<open>bytes[i]\<close> on a typed array is \<open>undefined\<close> (here \<open>None\<close>) outside the view, and
  \<open>undefined & m\<close> is 0. \<open>String.fromCharCode\<close> keeps the low 16 bits of its argument.
  All numbers of the loop are non-negative and below \<open>2 ^ 21\<close>, so the 32-bit operators
  \<open>&\<close>, \<open>|\<close>, \<open><<\<close> and \<open>>>\<close> are the bit operations on natural numbers.
\<close>

definition at :: "byte list \<Rightarrow> nat \<Rightarrow> nat option" where
  "at bytes i = (if i < length bytes then Some (unat (bytes ! i)) else None)"

definition js_and :: "nat option \<Rightarrow> nat \<Rightarrow> nat" where
  "js_and x m = (case x of None \<Rightarrow> 0 | Some n \<Rightarrow> n AND m)"

definition fromCharCode :: "nat \<Rightarrow> 16 word" where
  "fromCharCode n = word_of_nat n"

text \<open>The end of the loop body: one code unit below \<open>0x10000\<close>, a surrogate pair otherwise.\<close>

definition append_code :: "jsstring \<Rightarrow> nat \<Rightarrow> jsstring" where
  "append_code str u0 =
     (if u0 < 0x10000 then str @ [fromCharCode u0]
      else (let ch = u0 - 0x10000 in
            str @ [fromCharCode (0xD800 OR drop_bit 10 ch), fromCharCode (0xDC00 OR (ch AND 0x3FF))]))"

text \<open>
  The \<open>while\<close> loop over the view \<open>bytes\<close>, whose length is \<open>len\<close>. The first read of
  an iteration is guarded by \<open>idx < len\<close> and yields an element; the later reads of the
  iteration are not guarded. Besides the string the function returns the indices at which
  it has evaluated \<open>bytes[idx++]\<close>, in order.
\<close>

function getStr_loop :: "byte list \<Rightarrow> nat \<Rightarrow> jsstring \<Rightarrow> nat list \<Rightarrow> jsstring \<times> nat list" where
  "getStr_loop bytes idx str rd =
     (if idx < length bytes then
        (let u0 = unat (bytes ! idx) in
         if u0 AND 0x80 = 0 then
           getStr_loop bytes (idx + 1) (str @ [fromCharCode u0]) (rd @ [idx])
         else
           (let u1 = js_and (at bytes (idx + 1)) 63 in
            if u0 AND 0xE0 = 0xC0 then
              getStr_loop bytes (idx + 2)
                (str @ [fromCharCode (push_bit 6 (u0 AND 31) OR u1)]) (rd @ [idx, idx + 1])
            else
              (let u2 = js_and (at bytes (idx + 2)) 63 in
               if u0 AND 0xF0 = 0xE0 then
                 getStr_loop bytes (idx + 3)
                   (append_code str (push_bit 12 (u0 AND 15) OR push_bit 6 u1 OR u2))
                   (rd @ [idx, idx + 1, idx + 2])
               else
                 getStr_loop bytes (idx + 4)
                   (append_code str
                      (push_bit 18 (u0 AND 7) OR push_bit 12 u1 OR push_bit 6 u2
                         OR js_and (at bytes (idx + 3)) 63))
                   (rd @ [idx, idx + 1, idx + 2, idx + 3]))))
      else (str, rd))"
  by pat_completeness auto
termination
  by (relation "measure (\<lambda>(bytes, idx, str, rd). length bytes - idx)") auto

declare getStr_loop.simps [simp del]

subsection \<open>The bulk path: \<open>TextDecoder\<close>\<close>

text \<open>
  \<open>new TextDecoder().decode(bytes)\<close> is a platform function. This is the UTF-8 decoder
  of the Encoding standard in its default mode: an ill-formed sequence gives U+FFFD and
  decoding goes on, and since \<open>ignoreBOM\<close> is false a leading U+FEFF is dropped. The
  state is the code point under construction, the bytes seen and needed, and the lower
  and upper boundary of the next continuation byte.
\<close>

function utf8_decoder :: "nat \<Rightarrow> nat \<Rightarrow> nat \<Rightarrow> nat \<Rightarrow> nat \<Rightarrow> nat list \<Rightarrow> nat list" where
  "utf8_decoder cp seen needed lo hi [] = (if needed \<noteq> 0 then [0xFFFD] else [])"
| "utf8_decoder cp seen needed lo hi (b # bs) =
     (if needed = 0 then
        (if b \<le> 0x7F then b # utf8_decoder cp seen needed lo hi bs
         else if 0xC2 \<le> b \<and> b \<le> 0xDF then utf8_decoder (b AND 0x1F) seen 1 lo hi bs
         else if 0xE0 \<le> b \<and> b \<le> 0xEF then
           utf8_decoder (b AND 0xF) seen 2
             (if b = 0xE0 then 0xA0 else lo) (if b = 0xED then 0x9F else hi) bs
         else if 0xF0 \<le> b \<and> b \<le> 0xF4 then
           utf8_decoder (b AND 7) seen 3
             (if b = 0xF0 then 0x90 else lo) (if b = 0xF4 then 0x8F else hi) bs
         else 0xFFFD # utf8_decoder cp seen needed lo hi bs)
      else if b < lo \<or> hi < b then 0xFFFD # utf8_decoder 0 0 0 0x80 0xBF (b # bs)
      else
        (let cp' = push_bit 6 cp OR (b AND 0x3F) in
         if seen + 1 \<noteq> needed then utf8_decoder cp' (seen + 1) needed 0x80 0xBF bs
         else cp' # utf8_decoder 0 0 0 0x80 0xBF bs))"
  by pat_completeness auto
termination
  by (relation "measure (\<lambda>(cp, seen, needed, lo, hi, bs).
         2 * length bs + (if needed = 0 then 0 else 1))") auto

definition strip_bom :: "nat list \<Rightarrow> nat list" where
  "strip_bom cps = (case cps of [] \<Rightarrow> [] | c # cs \<Rightarrow> if c = 0xFEFF then cs else c # cs)"

text \<open>Code points become the code units of the resulting string.\<close>

definition utf16_units :: "nat \<Rightarrow> jsstring" where
  "utf16_units cp =
     (if cp < 0x10000 then [word_of_nat cp]
      else [word_of_nat (0xD800 + drop_bit 10 (cp - 0x10000)),
            word_of_nat (0xDC00 + ((cp - 0x10000) AND 0x3FF))])"

definition TextDecoder_decode :: "byte list \<Rightarrow> jsstring" where
  "TextDecoder_decode bytes =
     concat (map utf16_units (strip_bom (utf8_decoder 0 0 0 0x80 0xBF (map unat bytes))))"

subsection \<open>\<open>getStr\<close>\<close>

definition getStr :: "'i Wasm \<Rightarrow> int \<Rightarrow> 'i world \<Rightarrow> ('x exn + jsstring) \<times> 'i world" where
  "getStr wasm ptr s =
     (let (len, s1) = str_len wasm ptr s in
      case Uint8Array_new (buffer s1) ptr len of
        Inl e \<Rightarrow> (Inl e, s1)
      | Inr v \<Rightarrow>
          (let bytes = view_bytes v (buffer s1) in
           if len > 16 then (Inr (TextDecoder_decode bytes), s1)
           else (Inr (fst (getStr_loop bytes 0 [] [])), s1)))"

section \<open>The typed error\<close>

text \<open>
  The constructor of \<open>SqliteError\<close>. The context is a string or a module handle; with a
  handle the message is read from the module and the status is asked for, also when a
  code is supplied. \<open>code ?? status\<close> takes the status when no code is given.
\<close>

definition SqliteError_new ::
  "Status_enum \<Rightarrow> 'i Wasm + jsstring \<Rightarrow> int option \<Rightarrow> 'i world \<Rightarrow>
   ('x exn + SqliteError) \<times> 'i world" where
  "SqliteError_new Status context code0 s =
     (case context of
        Inr str \<Rightarrow>
          (Inr \<lparr>message = str,
                code = (case code0 of Some c \<Rightarrow> Some c | None \<Rightarrow> Status_member Status ''Unknown''),
                name = ''SqliteError''\<rparr>, s)
      | Inl wasm \<Rightarrow>
          (let (p, s1) = get_sqlite_error_str wasm s in
           case getStr wasm p s1 of
             (Inl e, s2) \<Rightarrow> (Inl e, s2)
           | (Inr msg, s2) \<Rightarrow>
               (let (status, s3) = get_status wasm s2 in
                (Inr \<lparr>message = msg,
                      code = (case code0 of Some c \<Rightarrow> Some c | None \<Rightarrow> Some status),
                      name = ''SqliteError''\<rparr>, s3))))"

text \<open>The getter \<open>codeName\<close>: \<open>Status[this.code]\<close>.\<close>

definition codeName :: "Status_enum \<Rightarrow> SqliteError \<Rightarrow> string option" where
  "codeName Status e = (case code e of None \<Rightarrow> None | Some c \<Rightarrow> Status_reverse Status c)"

section \<open>Error objects in the host\<close>






section \<open>Moving data into the module\<close>

text \<open>
  \<open>setStr\<close> and \<open>setArr\<close> return, with their result and the world they leave, the calls
  they have made themselves, in order: \<open>malloc\<close> with its argument and result, the closure
  and \<open>free\<close> with their argument. What the closure does to the world is in the world it
  returns.
\<close>

datatype event = Malloc int int | Closure int | Free int

definition setStr ::
  "'i Wasm \<Rightarrow> Status_enum \<Rightarrow> jsstring \<Rightarrow> (int \<Rightarrow> 'i world \<Rightarrow> ('x exn + 'r) \<times> 'i world) \<Rightarrow>
   'i world \<Rightarrow> ('x exn + 'r) \<times> 'i world \<times> event list" where
  "setStr wasm Status str closure s =
     (let bytes = TextEncoder_encode str;
          (ptr, s1) = malloc wasm (int (length bytes) + 1) s;
          t1 = [Malloc (int (length bytes) + 1) ptr]
      in
      if ptr = 0 then
        (case SqliteError_new Status (Inr (js_lit ''Out of memory.'')) None s1 of
           (Inr e, s2) \<Rightarrow> (Inl (Thrown_SqliteError e), s2, t1)
         | (Inl x, s2) \<Rightarrow> (Inl x, s2, t1))
      else
        (case Uint8Array_new (buffer s1) ptr (int (length bytes) + 1) of
           Inl x \<Rightarrow> (Inl x, s1, t1)
         | Inr mem \<Rightarrow>
             (case view_set mem bytes (buffer s1) of
                Inl x \<Rightarrow> (Inl x, s1, t1)
              | Inr buf \<Rightarrow>
                  (let s2 = s1\<lparr>buffer := view_put mem (length bytes) 0 buf\<rparr> in
                   case closure ptr s2 of
                     (Inr result, s3) \<Rightarrow>
                       (Inr result, free wasm ptr s3, t1 @ [Closure ptr, Free ptr])
                   | (Inl error, s3) \<Rightarrow>
                       (Inl error, free wasm ptr s3, t1 @ [Closure ptr, Free ptr])))))"

definition setArr ::
  "'i Wasm \<Rightarrow> Status_enum \<Rightarrow> byte list \<Rightarrow> (int \<Rightarrow> 'i world \<Rightarrow> ('x exn + 'r) \<times> 'i world) \<Rightarrow>
   'i world \<Rightarrow> ('x exn + 'r) \<times> 'i world \<times> event list" where
  "setArr wasm Status arr closure s =
     (let (ptr, s1) = malloc wasm (int (length arr)) s;
          t1 = [Malloc (int (length arr)) ptr]
      in
      if ptr = 0 then
        (case SqliteError_new Status (Inr (js_lit ''Out of memory.'')) None s1 of
           (Inr e, s2) \<Rightarrow> (Inl (Thrown_SqliteError e), s2, t1)
         | (Inl x, s2) \<Rightarrow> (Inl x, s2, t1))
      else
        (case Uint8Array_new (buffer s1) ptr (int (length arr)) of
           Inl x \<Rightarrow> (Inl x, s1, t1)
         | Inr mem \<Rightarrow>
             (case view_set mem arr (buffer s1) of
                Inl x \<Rightarrow> (Inl x, s1, t1)
              | Inr buf \<Rightarrow>
                  (let s2 = s1\<lparr>buffer := buf\<rparr> in
                   case closure ptr s2 of
                     (Inr result, s3) \<Rightarrow>
                       (Inr result, free wasm ptr s3, t1 @ [Closure ptr, Free ptr])
                   | (Inl error, s3) \<Rightarrow>
                       (Inl error, free wasm ptr s3, t1 @ [Closure ptr, Free ptr])))))"

section \<open>Reading a trace\<close>

text \<open>The pointers passed to \<open>free\<close> and to the closure in a trace, in order.\<close>

fun frees :: "event list \<Rightarrow> int list" where
  "frees [] = []"
| "frees (Free p # es) = p # frees es"
| "frees (e # es) = frees es"

fun closures :: "event list \<Rightarrow> int list" where
  "closures [] = []"
| "closures (Closure p # es) = p # closures es"
| "closures (e # es) = closures es"

text \<open>
  The allocator's contract for a pointer it hands out: the \<open>n\<close> bytes at \<open>p\<close> lie inside
  the linear memory.
\<close>

definition in_memory :: "int \<Rightarrow> int \<Rightarrow> 'i world \<Rightarrow> bool" where
  "in_memory p n s = (0 \<le> p \<and> 0 \<le> n \<and> p + n \<le> int (length (buffer s)))"

text \<open>The error that \<open>new SqliteError("Out of memory.")\<close> constructs.\<close>

definition out_of_memory :: "Status_enum \<Rightarrow> SqliteError" where
  "out_of_memory Status =
     \<lparr>message = js_lit ''Out of memory.'', code = Status_member Status ''Unknown'',
      name = ''SqliteError''\<rparr>"

section \<open>A small module and some closures, for concrete runs\<close>

text \<open>
  A module whose \<open>malloc\<close> always answers \<open>p\<close>, whose \<open>free\<close> notes the pointer in the
  internal state, and whose \<open>str_len\<close> counts the bytes before the first zero byte, as
  C's \<open>strlen\<close> does. Its memory has 16 bytes.
\<close>

definition c_strlen :: "byte list \<Rightarrow> nat" where
  "c_strlen bytes = length (takeWhile (\<lambda>b. b \<noteq> 0) bytes)"

definition test_wasm :: "int \<Rightarrow> int list Wasm" where
  "test_wasm p =
     \<lparr>malloc = (\<lambda>n s. (p, s)),
      free = (\<lambda>q s. s\<lparr>internal := internal s @ [q]\<rparr>),
      str_len = (\<lambda>q s. (int (c_strlen (drop (nat q) (buffer s))), s)),
      get_sqlite_error_str = (\<lambda>s. (0, s)),
      get_status = (\<lambda>s. (1, s))\<rparr>"

definition test_world :: "int list world" where
  "test_world =
     \<lparr>buffer = [0, 0, 0, 0, 0, 0, 0, 0, 0, 0, 0, 0, 0, 0, 0, 0], internal = []\<rparr>"

definition return_ptr :: "int \<Rightarrow> 's \<Rightarrow> (string exn + int) \<times> 's" where
  "return_ptr p s = (Inr p, s)"

definition throw_boom :: "int \<Rightarrow> 's \<Rightarrow> (string exn + int) \<times> 's" where
  "throw_boom p s = (Inl (Thrown ''boom''), s)"

definition read_memory :: "int \<Rightarrow> 'i world \<Rightarrow> (string exn + byte list) \<times> 'i world" where
  "read_memory p s = (Inr (buffer s), s)"

text \<open>The string \<open>h\<close>, \<open>e\<close> with acute accent (U+00E9), \<open>l\<close>, \<open>l\<close>, \<open>o\<close>.\<close>

definition hello :: jsstring where
  "hello = [0x68, 0xE9, 0x6C, 0x6C, 0x6F]"

section \<open>Well-formed text\<close>

text \<open>A Unicode scalar value: a code point that is not a surrogate.\<close>

definition scalar :: "nat \<Rightarrow> bool" where
  "scalar cp = (cp < 0x110000 \<and> \<not> (0xD800 \<le> cp \<and> cp \<le> 0xDFFF))"

text \<open>
  A string is well formed when every surrogate in it belongs to a pair, a lead surrogate
  followed by a trail surrogate. It starts with a byte order mark when its first code unit
  is U+FEFF.
\<close>

fun well_formed :: "jsstring \<Rightarrow> bool" where
  "well_formed [] = True"
| "well_formed [c] = (\<not> is_lead c \<and> \<not> is_trail c)"
| "well_formed (c # d # cs) =
     (if is_lead c then is_trail d \<and> well_formed cs
      else \<not> is_trail c \<and> well_formed (d # cs))"

definition starts_with_bom :: "jsstring \<Rightarrow> bool" where
  "starts_with_bom str = (case str of [] \<Rightarrow> False | c # cs \<Rightarrow> c = 0xFEFF)"

text \<open>
  Well-formed UTF-8, byte by byte, as the table of well-formed byte sequences of the
  Unicode standard has it: no stray continuation byte, no overlong form, no surrogate,
  nothing above U+10FFFF, and no sequence cut short.
\<close>

fun valid_utf8 :: "nat list \<Rightarrow> bool" where
  "valid_utf8 [] = True"
| "valid_utf8 (b0 # bs) =
     (if b0 < 0x80 then valid_utf8 bs
      else if 0xC2 \<le> b0 \<and> b0 \<le> 0xDF then
        (case bs of
           b1 # r \<Rightarrow> 0x80 \<le> b1 \<and> b1 \<le> 0xBF \<and> valid_utf8 r
         | _ \<Rightarrow> False)
      else if 0xE0 \<le> b0 \<and> b0 \<le> 0xEF then
        (case bs of
           b1 # b2 # r \<Rightarrow>
             (if b0 = 0xE0 then 0xA0 else 0x80) \<le> b1
             \<and> b1 \<le> (if b0 = 0xED then 0x9F else 0xBF)
             \<and> 0x80 \<le> b2 \<and> b2 \<le> 0xBF \<and> valid_utf8 r
         | _ \<Rightarrow> False)
      else if 0xF0 \<le> b0 \<and> b0 \<le> 0xF4 then
        (case bs of
           b1 # b2 # b3 # r \<Rightarrow>
             (if b0 = 0xF0 then 0x90 else 0x80) \<le> b1
             \<and> b1 \<le> (if b0 = 0xF4 then 0x8F else 0xBF)
             \<and> 0x80 \<le> b2 \<and> b2 \<le> 0xBF \<and> 0x80 \<le> b3 \<and> b3 \<le> 0xBF \<and> valid_utf8 r
         | _ \<Rightarrow> False)
      else False)"

section \<open>More modules and memories, for concrete runs\<close>

text \<open>
  A table of status names: the member the doc comment of \<open>codeName\<close> names, with value
  19, and two more whose values are chosen freely.
\<close>

definition test_Status :: Status_enum where
  "test_Status = [(''Unknown'', - 1), (''SqliteOk'', 0), (''SqliteConstraint'', 19)]"






text \<open>
  Two memories holding, at address 0, a string that starts with U+FEFF: 16 bytes long in
  the first, 17 bytes long in the second.
\<close>

definition bom16_world :: "int list world" where
  "bom16_world =
     \<lparr>buffer = [0xEF, 0xBB, 0xBF, 0x61, 0x61, 0x61, 0x61, 0x61, 0x61, 0x61, 0x61, 0x61, 0x61,
                0x61, 0x61, 0x61, 0, 0, 0, 0],
      internal = []\<rparr>"

definition bom17_world :: "int list world" where
  "bom17_world =
     \<lparr>buffer = [0xEF, 0xBB, 0xBF, 0x61, 0x61, 0x61, 0x61, 0x61, 0x61, 0x61, 0x61, 0x61, 0x61,
                0x61, 0x61, 0x61, 0x61, 0, 0, 0],
      internal = []\<rparr>"

section \<open>Bit operations as arithmetic\<close>

lemma and_low_mod:
  "(x::nat) AND 0x3F = x mod 64" "x AND 0x1F = x mod 32" "x AND 0xF = x mod 16"
  "x AND 7 = x mod 8" "x AND 0x3FF = x mod 1024" "x AND 63 = x mod 64"
  using take_bit_eq_mask [of 6 x] take_bit_eq_mask [of 5 x] take_bit_eq_mask [of 4 x]
    take_bit_eq_mask [of 3 x] take_bit_eq_mask [of 10 x]
  by (simp_all add: take_bit_eq_mod mask_eq_exp_minus_1)

lemma and_shifted_mask:
  "(x::nat) AND push_bit n (mask k) = push_bit n (take_bit k (drop_bit n x))"
  by (rule bit_eqI) (auto simp: bit_simps)

lemma and_high:
  "(x::nat) AND 0x80 = (x div 128 mod 2) * 128"
  "x AND 0xE0 = (x div 32 mod 8) * 32"
  "x AND 0xF0 = (x div 16 mod 16) * 16"
  using and_shifted_mask [of x 7 1] and_shifted_mask [of x 5 3] and_shifted_mask [of x 4 4]
  by (simp_all add: mask_eq_exp_minus_1 push_bit_eq_mult take_bit_eq_mod drop_bit_eq_div)

lemma or_shifted:
  assumes "y < 2 ^ n"
  shows "push_bit n (x::nat) OR y = x * 2 ^ n + y"
proof -
  have "push_bit n x AND y = 0"
  proof (rule bit_eqI)
    fix i
    show "bit (push_bit n x AND y) i = bit (0::nat) i"
    proof (cases "i < n")
      case True then show ?thesis by (simp add: bit_simps)
    next
      case False
      then have "2 ^ n \<le> (2::nat) ^ i" by simp
      with assms have "y < 2 ^ i" by linarith
      then have "\<not> bit y i" by (simp add: bit_iff_odd)
      then show ?thesis by (simp add: bit_simps)
    qed
  qed
  then show ?thesis
    by (simp add: disjunctive_add_eq_or [symmetric] push_bit_eq_mult)
qed

lemma or_const:
  "y < 64 \<Longrightarrow> 0x80 OR (y::nat) = 128 + y"
  "z < 1024 \<Longrightarrow> 0xD800 OR (z::nat) = 0xD800 + z"
  "z < 1024 \<Longrightarrow> 0xDC00 OR (z::nat) = 0xDC00 + z"
  using or_shifted [of y 6 2] or_shifted [of z 10 54] or_shifted [of z 10 55]
  by (simp_all add: push_bit_eq_mult)

lemma lead_class1:
  assumes "(x::nat) < 256"
  shows "(x AND 0x80 = 0) = (x < 0x80)"
proof -
  have "x div 128 < 2" using assms by simp
  then have "x div 128 mod 2 = x div 128" by simp
  then show ?thesis unfolding and_high by auto
qed

lemma lead_class2:
  assumes "(x::nat) < 256"
  shows "(x AND 0xE0 = 0xC0) = (0xC0 \<le> x \<and> x < 0xE0)"
proof -
  have "x div 32 < 8" using assms by simp
  then have "x div 32 mod 8 = x div 32" by simp
  moreover have "(x div 32 = 6) = (0xC0 \<le> x \<and> x < 0xE0)" by auto
  ultimately show ?thesis unfolding and_high by auto
qed

lemma lead_class3:
  assumes "(x::nat) < 256"
  shows "(x AND 0xF0 = 0xE0) = (0xE0 \<le> x \<and> x < 0xF0)"
proof -
  have "x div 16 < 16" using assms by simp
  then have "x div 16 mod 16 = x div 16" by simp
  moreover have "(x div 16 = 14) = (0xE0 \<le> x \<and> x < 0xF0)" by auto
  ultimately show ?thesis unfolding and_high by auto
qed

section \<open>The bytes of the encoder\<close>

lemma utf8_bytes_1: "cp < 0x80 \<Longrightarrow> utf8_bytes cp = [cp]"
  by (simp add: utf8_bytes_def)

lemma utf8_bytes_2:
  "0x80 \<le> cp \<Longrightarrow> cp < 0x800 \<Longrightarrow> utf8_bytes cp = [cp div 64 + 192, 128 + cp mod 64]"
  by (simp add: utf8_bytes_def drop_bit_eq_div and_low_mod or_const)

lemma utf8_bytes_3:
  "0x800 \<le> cp \<Longrightarrow> cp < 0x10000 \<Longrightarrow>
   utf8_bytes cp = [cp div 4096 + 224, 128 + cp div 64 mod 64, 128 + cp mod 64]"
  by (simp add: utf8_bytes_def drop_bit_eq_div and_low_mod or_const)

lemma utf8_bytes_4:
  "0x10000 \<le> cp \<Longrightarrow>
   utf8_bytes cp = [cp div 262144 + 240, 128 + cp div 4096 mod 64, 128 + cp div 64 mod 64,
                    128 + cp mod 64]"
  by (simp add: utf8_bytes_def drop_bit_eq_div and_low_mod or_const)

lemma field_cont: "b < 64 \<Longrightarrow> (128 + b) mod 64 = (b::nat)"
  by (simp add: mod_if)

lemma field_2: "a < 32 \<Longrightarrow> (a + 192) mod 32 = (a::nat)"
  by (simp add: mod_if)

lemma field_3: "a < 16 \<Longrightarrow> (a + 224) mod 16 = (a::nat)"
proof -
  assume "a < 16"
  have "(a + 14 * 16) mod 16 = a mod 16" by (rule mod_mult_self1)
  then show ?thesis using \<open>a < 16\<close> by simp
qed

lemma field_4: "a < 8 \<Longrightarrow> (a + 240) mod 8 = (a::nat)"
proof -
  assume "a < 8"
  have "(a + 30 * 8) mod 8 = a mod 8" by (rule mod_mult_self1)
  then show ?thesis using \<open>a < 8\<close> by simp
qed

lemma join_3: "cp div 4096 * 4096 + (cp div 64 mod 64 * 64 + cp mod 64) = (cp::nat)"
proof -
  have "cp mod (64 * 64) = 64 * (cp div 64 mod 64) + cp mod 64"
    by (rule mod_mult2_eq)
  then have "cp div 64 mod 64 * 64 + cp mod 64 = cp mod 4096" by simp
  then show ?thesis by simp
qed

lemma join_4:
  "cp div 262144 * 262144 + (cp div 4096 mod 64 * 4096 + (cp div 64 mod 64 * 64 + cp mod 64))
     = (cp::nat)"
proof -
  have 1: "cp mod (64 * 64) = 64 * (cp div 64 mod 64) + cp mod 64"
    by (rule mod_mult2_eq)
  have 2: "cp mod (4096 * 64) = 4096 * (cp div 4096 mod 64) + cp mod 4096"
    by (rule mod_mult2_eq)
  from 1 2 have "cp div 4096 mod 64 * 4096 + (cp div 64 mod 64 * 64 + cp mod 64) = cp mod 262144"
    by simp
  then show ?thesis by simp
qed

lemma or_2: "b < 64 \<Longrightarrow> push_bit 6 a OR b = a * 64 + (b::nat)"
  using or_shifted [of b 6 a] by simp

lemma or_3: "b < 64 \<Longrightarrow> c < 64 \<Longrightarrow>
  push_bit 12 a OR (push_bit 6 b OR c) = a * 4096 + (b * 64 + (c::nat))"
  using or_shifted [of c 6 b] or_shifted [of "b * 64 + c" 12 a] by simp

lemma or_4: "b < 64 \<Longrightarrow> c < 64 \<Longrightarrow> d < 64 \<Longrightarrow>
  push_bit 18 a OR (push_bit 12 b OR (push_bit 6 c OR d))
    = a * 262144 + (b * 4096 + (c * 64 + (d::nat)))"
  using or_shifted [of d 6 c] or_shifted [of "c * 64 + d" 12 b]
    or_shifted [of "b * 4096 + (c * 64 + d)" 18 a] by simp

section \<open>The short path decodes what the encoder wrote\<close>

lemma upt_2: "[i..<i + 2] = [i, i + 1]"
  by (simp add: upt_rec)

lemma upt_3: "[i..<i + 3] = [i, i + 1, i + 2]"
  by (simp add: upt_rec)

lemma upt_4: "[i..<i + 4] = [i, i + 1, i + 2, i + 3]"
  by (simp add: upt_rec)

lemma in_view:
  assumes "drop idx (map unat bytes) = xs @ rest" and "j < length xs"
  shows "idx + j < length bytes"
    and "unat (bytes ! (idx + j)) = xs ! j"
    and "at bytes (idx + j) = Some (xs ! j)"
proof -
  have "length (drop idx (map unat bytes)) = length xs + length rest"
    using assms(1) by simp
  then show l: "idx + j < length bytes" using assms(2) by simp
  have "drop idx (map unat bytes) ! j = (xs @ rest) ! j" using assms(1) by simp
  then show n: "unat (bytes ! (idx + j)) = xs ! j"
    using l assms(2) by (simp add: nth_append)
  show "at bytes (idx + j) = Some (xs ! j)"
    using l n by (simp add: at_def)
qed

lemma append_code_units: "cp < 0x110000 \<Longrightarrow> append_code str cp = str @ utf16_units cp"
  by (simp add: append_code_def utf16_units_def fromCharCode_def Let_def drop_bit_eq_div
      and_low_mod or_const)

lemma loop_step_1:
  assumes d: "drop idx (map unat bytes) = utf8_bytes cp @ rest" and c: "cp < 0x80"
  shows "getStr_loop bytes idx str rd =
         getStr_loop bytes (idx + 1) (str @ utf16_units cp) (rd @ [idx])"
proof -
  have d': "drop idx (map unat bytes) = [cp] @ rest" using d c by (simp add: utf8_bytes_1)
  have l: "idx < length bytes" using in_view(1) [OF d', of 0] by simp
  have u: "unat (bytes ! idx) = cp" using in_view(2) [OF d', of 0] by simp
  have z: "cp AND 0x80 = 0" using c by (simp add: lead_class1)
  show ?thesis
    using c by (subst getStr_loop.simps) (simp add: l u z Let_def utf16_units_def fromCharCode_def)
qed

lemma loop_step_2:
  assumes d: "drop idx (map unat bytes) = utf8_bytes cp @ rest"
    and c: "0x80 \<le> cp" "cp < 0x800"
  shows "getStr_loop bytes idx str rd =
         getStr_loop bytes (idx + 2) (str @ utf16_units cp) (rd @ [idx, idx + 1])"
proof -
  let ?a = "cp div 64" and ?m = "cp mod 64"
  have d': "drop idx (map unat bytes) = [?a + 192, 128 + ?m] @ rest"
    using d c by (simp add: utf8_bytes_2)
  have a: "?a < 32" using c by simp
  have l: "idx < length bytes" using in_view(1) [OF d', of 0] by simp
  have u0: "unat (bytes ! idx) = ?a + 192" using in_view(2) [OF d', of 0] by simp
  have u1: "at bytes (Suc idx) = Some (128 + ?m)" using in_view(3) [OF d', of 1] by simp
  have z1: "(?a + 192) AND 0x80 \<noteq> 0" using a by (simp add: lead_class1)
  have z2: "(?a + 192) AND 0xE0 = 0xC0" using a by (simp add: lead_class2)
  have f: "(?a + 192) AND 31 = ?a" using a by (simp add: and_low_mod field_2)
  have g: "js_and (Some (128 + ?m)) 63 = ?m" by (simp add: js_and_def and_low_mod field_cont)
  have j: "push_bit 6 ?a OR ?m = cp" by (simp add: or_2)
  show ?thesis
    using c by (subst getStr_loop.simps)
      (simp add: l u0 u1 z1 z2 f g j Let_def utf16_units_def fromCharCode_def)
qed

lemma loop_step_3:
  assumes d: "drop idx (map unat bytes) = utf8_bytes cp @ rest"
    and c: "0x800 \<le> cp" "cp < 0x10000"
  shows "getStr_loop bytes idx str rd =
         getStr_loop bytes (idx + 3) (str @ utf16_units cp) (rd @ [idx, idx + 1, idx + 2])"
proof -
  let ?a = "cp div 4096" and ?n = "cp div 64 mod 64" and ?m = "cp mod 64"
  have d': "drop idx (map unat bytes) = [?a + 224, 128 + ?n, 128 + ?m] @ rest"
    using d c by (simp add: utf8_bytes_3)
  have a: "?a < 16" using c by simp
  have l: "idx < length bytes" using in_view(1) [OF d', of 0] by simp
  have u0: "unat (bytes ! idx) = ?a + 224" using in_view(2) [OF d', of 0] by simp
  have u1: "at bytes (Suc idx) = Some (128 + ?n)" using in_view(3) [OF d', of 1] by simp
  have u2: "at bytes (Suc (Suc idx)) = Some (128 + ?m)" using in_view(3) [OF d', of 2] by simp
  have z1: "(?a + 224) AND 0x80 \<noteq> 0" using a by (simp add: lead_class1)
  have z2: "(?a + 224) AND 0xE0 \<noteq> 0xC0" using a by (simp add: lead_class2)
  have z3: "(?a + 224) AND 0xF0 = 0xE0" using a by (simp add: lead_class3)
  have f: "(?a + 224) AND 15 = ?a" using a by (simp add: and_low_mod field_3)
  have g1: "js_and (Some (128 + ?n)) 63 = ?n" by (simp add: js_and_def and_low_mod field_cont)
  have g2: "js_and (Some (128 + ?m)) 63 = ?m" by (simp add: js_and_def and_low_mod field_cont)
  have j: "push_bit 12 ?a OR (push_bit 6 ?n OR ?m) = cp" by (simp add: or_3 join_3)
  have k: "append_code str cp = str @ utf16_units cp" using c by (simp add: append_code_units)
  show ?thesis
    by (subst getStr_loop.simps) (simp add: l u0 u1 u2 z1 z2 z3 f g1 g2 j k Let_def)
qed

lemma loop_step_4:
  assumes d: "drop idx (map unat bytes) = utf8_bytes cp @ rest"
    and c: "0x10000 \<le> cp" "cp < 0x110000"
  shows "getStr_loop bytes idx str rd =
         getStr_loop bytes (idx + 4) (str @ utf16_units cp)
           (rd @ [idx, idx + 1, idx + 2, idx + 3])"
proof -
  let ?a = "cp div 262144" and ?o = "cp div 4096 mod 64"
    and ?n = "cp div 64 mod 64" and ?m = "cp mod 64"
  have d': "drop idx (map unat bytes) = [?a + 240, 128 + ?o, 128 + ?n, 128 + ?m] @ rest"
    using d c by (simp add: utf8_bytes_4)
  have a: "?a < 8" using c by simp
  have l: "idx < length bytes" using in_view(1) [OF d', of 0] by simp
  have u0: "unat (bytes ! idx) = ?a + 240" using in_view(2) [OF d', of 0] by simp
  have u1: "at bytes (Suc idx) = Some (128 + ?o)" using in_view(3) [OF d', of 1] by simp
  have u2: "at bytes (Suc (Suc idx)) = Some (128 + ?n)" using in_view(3) [OF d', of 2] by simp
  have u3: "at bytes (idx + 3) = Some (128 + ?m)" using in_view(3) [OF d', of 3] by simp
  have z1: "(?a + 240) AND 0x80 \<noteq> 0" using a by (simp add: lead_class1)
  have z2: "(?a + 240) AND 0xE0 \<noteq> 0xC0" using a by (simp add: lead_class2)
  have z3: "(?a + 240) AND 0xF0 \<noteq> 0xE0" using a by (simp add: lead_class3)
  have f: "(?a + 240) AND 7 = ?a" using a by (simp add: and_low_mod field_4)
  have g1: "js_and (Some (128 + ?o)) 63 = ?o" by (simp add: js_and_def and_low_mod field_cont)
  have g2: "js_and (Some (128 + ?n)) 63 = ?n" by (simp add: js_and_def and_low_mod field_cont)
  have g3: "js_and (Some (128 + ?m)) 63 = ?m" by (simp add: js_and_def and_low_mod field_cont)
  have j: "push_bit 18 ?a OR (push_bit 12 ?o OR (push_bit 6 ?n OR ?m)) = cp"
    by (simp add: or_4 join_4)
  have k: "append_code str cp = str @ utf16_units cp" using c by (simp add: append_code_units)
  show ?thesis
    by (subst getStr_loop.simps) (simp add: l u0 u1 u2 u3 z1 z2 z3 f g1 g2 g3 j k Let_def)
qed

lemma loop_step:
  assumes d: "drop idx (map unat bytes) = utf8_bytes cp @ rest" and c: "cp < 0x110000"
  shows "getStr_loop bytes idx str rd =
         getStr_loop bytes (idx + length (utf8_bytes cp)) (str @ utf16_units cp)
           (rd @ [idx..<idx + length (utf8_bytes cp)])"
proof -
  consider "cp < 0x80" | "0x80 \<le> cp" "cp < 0x800" | "0x800 \<le> cp" "cp < 0x10000"
    | "0x10000 \<le> cp" by linarith
  then show ?thesis
  proof cases
    case 1
    have "length (utf8_bytes cp) = 1" using 1 by (simp add: utf8_bytes_1)
    moreover have "[idx..<idx + 1] = [idx]" by simp
    ultimately show ?thesis using loop_step_1 [OF d 1] by (simp only:)
  next
    case 2
    have "length (utf8_bytes cp) = 2" using 2 by (simp add: utf8_bytes_2)
    then show ?thesis using loop_step_2 [OF d 2] by (simp only: upt_2)
  next
    case 3
    have "length (utf8_bytes cp) = 3" using 3 by (simp add: utf8_bytes_3)
    then show ?thesis using loop_step_3 [OF d 3] by (simp only: upt_3)
  next
    case 4
    have "length (utf8_bytes cp) = 4" using 4 by (simp add: utf8_bytes_4)
    then show ?thesis using loop_step_4 [OF d 4 c] by (simp only: upt_4)
  qed
qed

lemma loop_done: "length bytes \<le> idx \<Longrightarrow> getStr_loop bytes idx str rd = (str, rd)"
  by (subst getStr_loop.simps) simp

lemma loop_all:
  assumes "\<forall>cp \<in> set cps. cp < 0x110000"
    and "drop idx (map unat bytes) = concat (map utf8_bytes cps)"
  shows "getStr_loop bytes idx str rd =
           (str @ concat (map utf16_units cps), rd @ [idx..<length bytes])"
  using assms
proof (induction cps arbitrary: idx str rd)
  case Nil
  then have "length bytes \<le> idx" by simp
  then show ?case by (simp add: loop_done)
next
  case (Cons cp cps)
  let ?k = "length (utf8_bytes cp)"
  have d: "drop idx (map unat bytes) = utf8_bytes cp @ concat (map utf8_bytes cps)"
    using Cons.prems(2) by simp
  have c: "cp < 0x110000" using Cons.prems(1) by simp
  have "length bytes - idx = ?k + length (concat (map utf8_bytes cps))"
    using arg_cong [OF d, of length] by simp
  moreover have "1 \<le> ?k" by (simp add: utf8_bytes_def)
  ultimately have le: "idx + ?k \<le> length bytes" by linarith
  have "drop ?k (drop idx (map unat bytes)) = concat (map utf8_bytes cps)"
    using d by simp
  then have d2: "drop (idx + ?k) (map unat bytes) = concat (map utf8_bytes cps)"
    by (simp add: add.commute)
  have u: "[idx..<idx + ?k] @ [idx + ?k..<length bytes] = [idx..<length bytes]"
    using le by (metis le_add1 upt_add_eq_append le_Suc_ex)
  have "getStr_loop bytes idx str rd =
        getStr_loop bytes (idx + ?k) (str @ utf16_units cp) (rd @ [idx..<idx + ?k])"
    by (rule loop_step [OF d c])
  also have "\<dots> = ((str @ utf16_units cp) @ concat (map utf16_units cps),
                   (rd @ [idx..<idx + ?k]) @ [idx + ?k..<length bytes])"
    using Cons.prems(1) d2 by (intro Cons.IH) simp_all
  finally show ?case using u by simp
qed

lemma utf8_bytes_lt: "cp < 0x110000 \<Longrightarrow> b \<in> set (utf8_bytes cp) \<Longrightarrow> b < 256"
proof -
  assume c: "cp < 0x110000" and b: "b \<in> set (utf8_bytes cp)"
  consider "cp < 0x80" | "0x80 \<le> cp" "cp < 0x800" | "0x800 \<le> cp" "cp < 0x10000"
    | "0x10000 \<le> cp" by linarith
  then show ?thesis
  proof cases
    case 1 then show ?thesis using b by (simp add: utf8_bytes_1)
  next
    case 2
    have "cp div 64 < 32" using 2 by simp
    then show ?thesis using b 2 by (auto simp: utf8_bytes_2)
  next
    case 3
    have "cp div 4096 < 16" using 3 by simp
    then show ?thesis using b 3 by (auto simp: utf8_bytes_3)
  next
    case 4
    have "cp div 262144 < 8" using c by simp
    then show ?thesis using b 4 by (auto simp: utf8_bytes_4)
  qed
qed

lemma unat_utf8_encode:
  assumes "\<forall>cp \<in> set cps. cp < 0x110000"
  shows "map unat (utf8_encode cps) = concat (map utf8_bytes cps)"
proof -
  have "\<forall>b \<in> set (concat (map utf8_bytes cps)). b < 256"
    using assms utf8_bytes_lt by auto
  then have "\<And>b. b \<in> set (concat (map utf8_bytes cps)) \<Longrightarrow> unat (word_of_nat b :: byte) = b"
    by (auto simp: unat_of_nat)
  then have "map (\<lambda>b. unat (word_of_nat b :: byte)) (concat (map utf8_bytes cps))
           = concat (map utf8_bytes cps)"
    by (rule map_idI)
  then show ?thesis by (simp add: utf8_encode_def comp_def)
qed

lemma short_path_decodes:
  assumes "\<forall>cp \<in> set cps. cp < 0x110000"
  shows "getStr_loop (utf8_encode cps) 0 [] [] =
           (concat (map utf16_units cps), [0..<length (utf8_encode cps)])"
  using loop_all [OF assms, of 0 "utf8_encode cps" "[]" "[]"] unat_utf8_encode [OF assms]
  by simp

section \<open>The bulk path decodes what the encoder wrote\<close>

lemma dec_ascii:
  "b \<le> 0x7F \<Longrightarrow>
   utf8_decoder 0 0 0 0x80 0xBF (b # bs) = b # utf8_decoder 0 0 0 0x80 0xBF bs"
  by simp

lemma dec_lead2:
  "0xC2 \<le> b \<Longrightarrow> b \<le> 0xDF \<Longrightarrow>
   utf8_decoder 0 0 0 0x80 0xBF (b # bs) = utf8_decoder (b AND 0x1F) 0 1 0x80 0xBF bs"
  by simp

lemma dec_lead3:
  "0xE0 \<le> b \<Longrightarrow> b \<le> 0xEF \<Longrightarrow>
   utf8_decoder 0 0 0 0x80 0xBF (b # bs) =
   utf8_decoder (b AND 0xF) 0 2 (if b = 0xE0 then 0xA0 else 0x80)
     (if b = 0xED then 0x9F else 0xBF) bs"
  by simp

lemma dec_lead4:
  "0xF0 \<le> b \<Longrightarrow> b \<le> 0xF4 \<Longrightarrow>
   utf8_decoder 0 0 0 0x80 0xBF (b # bs) =
   utf8_decoder (b AND 7) 0 3 (if b = 0xF0 then 0x90 else 0x80)
     (if b = 0xF4 then 0x8F else 0xBF) bs"
  by simp

lemma dec_first:
  "lo \<le> 128 + m \<Longrightarrow> 128 + m \<le> hi \<Longrightarrow> m < 64 \<Longrightarrow> 1 < needed \<Longrightarrow>
   utf8_decoder x 0 needed lo hi ((128 + m) # bs) =
   utf8_decoder (x * 64 + m) (Suc 0) needed 0x80 0xBF bs"
  by (simp add: Let_def and_low_mod field_cont or_2)

lemma dec_more:
  "m < 64 \<Longrightarrow> 0 < needed \<Longrightarrow> Suc seen \<noteq> needed \<Longrightarrow>
   utf8_decoder x seen needed 0x80 0xBF ((128 + m) # bs) =
   utf8_decoder (x * 64 + m) (Suc seen) needed 0x80 0xBF bs"
  by (simp add: Let_def and_low_mod field_cont or_2)

lemma dec_last:
  "m < 64 \<Longrightarrow> 0 < needed \<Longrightarrow> Suc seen = needed \<Longrightarrow>
   utf8_decoder x seen needed 0x80 0xBF ((128 + m) # bs) =
   (x * 64 + m) # utf8_decoder 0 0 0 0x80 0xBF bs"
  by (simp add: Let_def and_low_mod field_cont or_2)

declare utf8_decoder.simps [simp del]

lemma decoder_step_1:
  "cp < 0x80 \<Longrightarrow>
   utf8_decoder 0 0 0 0x80 0xBF (utf8_bytes cp @ bs) = cp # utf8_decoder 0 0 0 0x80 0xBF bs"
  by (simp add: utf8_bytes_1 dec_ascii)

lemma decoder_step_2:
  assumes c: "0x80 \<le> cp" "cp < 0x800"
  shows "utf8_decoder 0 0 0 0x80 0xBF (utf8_bytes cp @ bs)
           = cp # utf8_decoder 0 0 0 0x80 0xBF bs"
proof -
  let ?a = "cp div 64" and ?m = "cp mod 64"
  have a: "?a < 32" "2 \<le> ?a" using c by simp_all
  have f: "(?a + 192) AND 0x1F = ?a" using a by (simp add: and_low_mod field_2)
  have "utf8_decoder 0 0 0 0x80 0xBF (utf8_bytes cp @ bs) =
        utf8_decoder 0 0 0 0x80 0xBF ((?a + 192) # (128 + ?m) # bs)"
    by (simp add: utf8_bytes_2 [OF c])
  also have "\<dots> = utf8_decoder ?a 0 1 0x80 0xBF ((128 + ?m) # bs)"
    using dec_lead2 [of "?a + 192" "(128 + ?m) # bs"] a f by simp
  also have "\<dots> = (?a * 64 + ?m) # utf8_decoder 0 0 0 0x80 0xBF bs"
    by (rule dec_last) simp_all
  finally show ?thesis by simp
qed

lemma decoder_step_3:
  assumes c: "0x800 \<le> cp" "cp < 0x10000" and s: "\<not> (0xD800 \<le> cp \<and> cp \<le> 0xDFFF)"
  shows "utf8_decoder 0 0 0 0x80 0xBF (utf8_bytes cp @ bs)
           = cp # utf8_decoder 0 0 0 0x80 0xBF bs"
proof -
  let ?a = "cp div 4096" and ?n = "cp div 64 mod 64" and ?m = "cp mod 64"
  let ?lo = "if ?a + 224 = 0xE0 then 0xA0 else (0x80::nat)"
  let ?hi = "if ?a + 224 = 0xED then 0x9F else (0xBF::nat)"
  have a: "?a < 16" using c by simp
  have lo: "?a = 0 \<Longrightarrow> 32 \<le> ?n" using c by simp
  have hi: "?a = 13 \<Longrightarrow> ?n < 32"
  proof -
    assume e: "?a = 13"
    have "cp div (64 * 64) = cp div 64 div 64" by (rule div_mult2_eq)
    with e have 1: "cp div 64 div 64 = 13" by simp
    have "cp < 0xE000" using e by simp
    with s have "cp < 0xD800" by simp
    then have 2: "cp div 64 < 864" by simp
    have "cp div 64 = cp div 64 div 64 * 64 + cp div 64 mod 64" by simp
    with 1 2 show "?n < 32" by linarith
  qed
  have n: "?n < 64" by simp
  have b1: "?lo \<le> 128 + ?n" using lo by auto
  have b2: "128 + ?n \<le> ?hi" using hi n by auto
  have f: "(?a + 224) AND 0xF = ?a" using a by (simp add: and_low_mod field_3)
  have "utf8_decoder 0 0 0 0x80 0xBF (utf8_bytes cp @ bs) =
        utf8_decoder 0 0 0 0x80 0xBF ((?a + 224) # (128 + ?n) # (128 + ?m) # bs)"
    by (simp add: utf8_bytes_3 [OF c])
  also have "\<dots> = utf8_decoder ?a 0 2 ?lo ?hi ((128 + ?n) # (128 + ?m) # bs)"
    using dec_lead3 [of "?a + 224" "(128 + ?n) # (128 + ?m) # bs"] a
    by (simp add: f)
  also have "\<dots> = utf8_decoder (?a * 64 + ?n) (Suc 0) 2 0x80 0xBF ((128 + ?m) # bs)"
    using b1 b2 by (rule dec_first) simp_all
  also have "\<dots> = ((?a * 64 + ?n) * 64 + ?m) # utf8_decoder 0 0 0 0x80 0xBF bs"
    by (rule dec_last) simp_all
  also have "(?a * 64 + ?n) * 64 + ?m = cp"
    using join_3 [of cp] by (simp add: algebra_simps)
  finally show ?thesis .
qed

lemma decoder_step_4:
  assumes c: "0x10000 \<le> cp" "cp < 0x110000"
  shows "utf8_decoder 0 0 0 0x80 0xBF (utf8_bytes cp @ bs)
           = cp # utf8_decoder 0 0 0 0x80 0xBF bs"
proof -
  let ?a = "cp div 262144" and ?o = "cp div 4096 mod 64"
    and ?n = "cp div 64 mod 64" and ?m = "cp mod 64"
  let ?lo = "if ?a + 240 = 0xF0 then 0x90 else (0x80::nat)"
  let ?hi = "if ?a + 240 = 0xF4 then 0x8F else (0xBF::nat)"
  have a: "?a < 5" using c by simp
  have lo: "?a = 0 \<Longrightarrow> 16 \<le> ?o" using c by simp
  have hi: "?a = 4 \<Longrightarrow> ?o < 16"
  proof -
    assume e: "?a = 4"
    have "cp div (4096 * 64) = cp div 4096 div 64" by (rule div_mult2_eq)
    with e have 1: "cp div 4096 div 64 = 4" by simp
    have 2: "cp div 4096 < 272" using c by simp
    have "cp div 4096 = cp div 4096 div 64 * 64 + cp div 4096 mod 64" by simp
    with 1 2 show "?o < 16" by linarith
  qed
  have o: "?o < 64" by simp
  have b1: "?lo \<le> 128 + ?o" using lo by auto
  have b2: "128 + ?o \<le> ?hi" using hi o by auto
  have f: "(?a + 240) AND 7 = ?a" using a by (simp add: and_low_mod field_4)
  have "utf8_decoder 0 0 0 0x80 0xBF (utf8_bytes cp @ bs) =
        utf8_decoder 0 0 0 0x80 0xBF
          ((?a + 240) # (128 + ?o) # (128 + ?n) # (128 + ?m) # bs)"
    by (simp add: utf8_bytes_4 [OF c(1)])
  also have "\<dots> = utf8_decoder ?a 0 3 ?lo ?hi ((128 + ?o) # (128 + ?n) # (128 + ?m) # bs)"
    using dec_lead4 [of "?a + 240" "(128 + ?o) # (128 + ?n) # (128 + ?m) # bs"] a
    by (simp add: f)
  also have "\<dots> = utf8_decoder (?a * 64 + ?o) (Suc 0) 3 0x80 0xBF
                      ((128 + ?n) # (128 + ?m) # bs)"
    using b1 b2 by (rule dec_first) simp_all
  also have "\<dots> = utf8_decoder ((?a * 64 + ?o) * 64 + ?n) (Suc (Suc 0)) 3 0x80 0xBF
                      ((128 + ?m) # bs)"
    by (rule dec_more) simp_all
  also have "\<dots> = (((?a * 64 + ?o) * 64 + ?n) * 64 + ?m) # utf8_decoder 0 0 0 0x80 0xBF bs"
    by (rule dec_last) simp_all
  also have "((?a * 64 + ?o) * 64 + ?n) * 64 + ?m = cp"
    using join_4 [of cp] by (simp add: algebra_simps)
  finally show ?thesis .
qed

lemma decoder_step:
  assumes "scalar cp"
  shows "utf8_decoder 0 0 0 0x80 0xBF (utf8_bytes cp @ bs)
           = cp # utf8_decoder 0 0 0 0x80 0xBF bs"
proof -
  have c: "cp < 0x110000" and s: "\<not> (0xD800 \<le> cp \<and> cp \<le> 0xDFFF)"
    using assms by (simp_all add: scalar_def)
  consider "cp < 0x80" | "0x80 \<le> cp" "cp < 0x800" | "0x800 \<le> cp" "cp < 0x10000"
    | "0x10000 \<le> cp" by linarith
  then show ?thesis
  proof cases
    case 1 then show ?thesis by (rule decoder_step_1)
  next
    case 2 then show ?thesis by (rule decoder_step_2)
  next
    case 3 then show ?thesis using s by (rule decoder_step_3)
  next
    case 4 then show ?thesis using c by (rule decoder_step_4)
  qed
qed

lemma decoder_all:
  "\<forall>cp \<in> set cps. scalar cp \<Longrightarrow>
   utf8_decoder 0 0 0 0x80 0xBF (concat (map utf8_bytes cps)) = cps"
  by (induction cps) (simp_all add: decoder_step utf8_decoder.simps(1))

lemma bulk_path_decodes:
  assumes "\<forall>cp \<in> set cps. scalar cp"
  shows "TextDecoder_decode (utf8_encode cps) = concat (map utf16_units (strip_bom cps))"
proof -
  have "\<forall>cp \<in> set cps. cp < 0x110000" using assms by (simp add: scalar_def)
  then have "map unat (utf8_encode cps) = concat (map utf8_bytes cps)"
    by (rule unat_utf8_encode)
  then show ?thesis using decoder_all [OF assms] by (simp add: TextDecoder_decode_def)
qed

section \<open>Code units and code points\<close>

lemma is_lead_unat: "is_lead c = (0xD800 \<le> unat c \<and> unat c \<le> 0xDBFF)"
  by (simp add: is_lead_def word_le_nat_alt)

lemma is_trail_unat: "is_trail c = (0xDC00 \<le> unat c \<and> unat c \<le> 0xDFFF)"
  by (simp add: is_trail_def word_le_nat_alt)

lemma unat_unit_lt: "unat (c :: 16 word) < 0x10000"
  using unsigned_less [of c, where 'a = nat] by simp

lemma pair_bounds:
  assumes "is_lead c" and "is_trail d"
  shows "0x10000 \<le> 0x10000 + (unat c - 0xD800) * 0x400 + (unat d - 0xDC00)"
    and "0x10000 + (unat c - 0xD800) * 0x400 + (unat d - 0xDC00) < 0x110000"
  using assms unfolding is_lead_unat is_trail_unat by linarith+

lemma scalar_unit: "\<not> is_lead c \<Longrightarrow> \<not> is_trail c \<Longrightarrow> scalar (unat c)"
  using unat_unit_lt [of c] by (auto simp: scalar_def is_lead_unat is_trail_unat)

lemma scalar_pair:
  "is_lead c \<Longrightarrow> is_trail d \<Longrightarrow>
   scalar (0x10000 + (unat c - 0xD800) * 0x400 + (unat d - 0xDC00))"
  using pair_bounds [of c d] by (simp add: scalar_def)

lemma scalar_replacement: "scalar 0xFFFD"
  by (simp add: scalar_def)

lemma code_points_scalar: "\<forall>cp \<in> set (code_points str). scalar cp"
  by (induction str rule: code_points.induct)
    (simp_all add: scalar_unit scalar_pair scalar_replacement)

lemma units_unit: "utf16_units (unat (c :: 16 word)) = [c]"
  using unat_unit_lt [of c] by (simp add: utf16_units_def)

lemma units_pair:
  assumes "is_lead c" and "is_trail d"
  shows "utf16_units (0x10000 + (unat c - 0xD800) * 0x400 + (unat d - 0xDC00)) = [c, d]"
proof -
  let ?h = "unat c - 0xD800" and ?l = "unat d - 0xDC00"
  have h: "?h < 1024" "0xD800 + ?h = unat c"
    using assms(1) unfolding is_lead_unat by linarith+
  have l: "?l < 1024" "0xDC00 + ?l = unat d"
    using assms(2) unfolding is_trail_unat by linarith+
  have 1: "(?h * 1024 + ?l) div 1024 = ?h" using l(1) by simp
  have 2: "(?h * 1024 + ?l) mod 1024 = ?l" using l(1) by simp
  have "utf16_units (0x10000 + ?h * 0x400 + ?l) =
        [word_of_nat (0xD800 + ?h), word_of_nat (0xDC00 + ?l)]"
    unfolding utf16_units_def using l(1) by (simp add: drop_bit_eq_div and_low_mod 1 2)
  then show ?thesis by (simp only: h l of_nat_unat) simp
qed

lemma utf16_roundtrip:
  "well_formed str \<Longrightarrow> concat (map utf16_units (code_points str)) = str"
  by (induction str rule: code_points.induct) (simp_all add: units_unit units_pair)

lemma first_code_point:
  assumes "well_formed str" and "\<not> starts_with_bom str"
  shows "strip_bom (code_points str) = code_points str"
proof (cases str rule: code_points.cases)
  case 1
  then show ?thesis by (simp add: strip_bom_def)
next
  case (2 c)
  then have "unat c \<noteq> 0xFEFF" using assms(2)
    by (auto simp: starts_with_bom_def word_unat_eq_iff)
  then show ?thesis using 2 assms(1) by (simp add: strip_bom_def)
next
  case (3 c d cs)
  then have u: "unat c \<noteq> 0xFEFF" using assms(2)
    by (auto simp: starts_with_bom_def word_unat_eq_iff)
  show ?thesis
  proof (cases "is_lead c")
    case True
    then have "is_trail d" using 3 assms(1) by simp
    then show ?thesis using 3 True pair_bounds(1) [of c d] by (simp add: strip_bom_def)
  next
    case False
    then show ?thesis using 3 u assms(1) by (simp add: strip_bom_def)
  qed
qed

lemma short_path_roundtrip:
  assumes "well_formed str"
  shows "fst (getStr_loop (TextEncoder_encode str) 0 [] []) = str"
proof -
  have "\<forall>cp \<in> set (code_points str). cp < 0x110000"
    using code_points_scalar [of str] by (simp add: scalar_def)
  then show ?thesis
    using short_path_decodes [of "code_points str"] utf16_roundtrip [OF assms]
    by (simp add: TextEncoder_encode_def)
qed

lemma bulk_path_roundtrip:
  assumes "well_formed str" and "\<not> starts_with_bom str"
  shows "TextDecoder_decode (TextEncoder_encode str) = str"
  using bulk_path_decodes [OF code_points_scalar, of str] first_code_point [OF assms]
    utf16_roundtrip [OF assms(1)]
  by (simp add: TextEncoder_encode_def)

section \<open>The reads of the short path\<close>

lemma loop_advance_1:
  assumes "idx < length bytes" and "unat (bytes ! idx) < 0x80"
  shows "\<exists>str'. getStr_loop bytes idx str rd = getStr_loop bytes (idx + 1) str' (rd @ [idx])"
  using assms by (subst getStr_loop.simps) (auto simp: Let_def lead_class1)

lemma loop_advance_2:
  assumes "idx < length bytes" and "0xC0 \<le> unat (bytes ! idx)" and "unat (bytes ! idx) < 0xE0"
  shows "\<exists>str'. getStr_loop bytes idx str rd =
           getStr_loop bytes (idx + 2) str' (rd @ [idx, idx + 1])"
  using assms by (subst getStr_loop.simps) (auto simp: Let_def lead_class1 lead_class2)

lemma byte_lt: "unat (b :: byte) < 256"
  using unsigned_less [of b, where 'a = nat] by simp

lemma loop_advance_3:
  assumes "idx < length bytes" and "0xE0 \<le> unat (bytes ! idx)" and "unat (bytes ! idx) < 0xF0"
  shows "\<exists>str'. getStr_loop bytes idx str rd =
           getStr_loop bytes (idx + 3) str' (rd @ [idx, idx + 1, idx + 2])"
  using assms
  by (subst getStr_loop.simps) (auto simp: Let_def lead_class1 lead_class2 lead_class3)

lemma loop_advance_4:
  assumes "idx < length bytes" and "0xF0 \<le> unat (bytes ! idx)"
  shows "\<exists>str'. getStr_loop bytes idx str rd =
           getStr_loop bytes (idx + 4) str' (rd @ [idx, idx + 1, idx + 2, idx + 3])"
  using assms byte_lt [of "bytes ! idx"]
  by (subst getStr_loop.simps) (auto simp: Let_def lead_class1 lead_class2 lead_class3)

lemma drop_cons_length:
  assumes "drop idx xs = ys @ r"
  shows "idx + length ys \<le> length xs \<or> ys = []" and "drop (idx + length ys) xs = r"
proof -
  have "length xs - idx = length ys + length r" using arg_cong [OF assms, of length] by simp
  then show "idx + length ys \<le> length xs \<or> ys = []" by (cases ys) auto
  have "drop (length ys) (drop idx xs) = r" using assms by simp
  then show "drop (idx + length ys) xs = r" by (simp add: add.commute)
qed

lemma loop_reads:
  "valid_utf8 (drop idx (map unat bytes)) \<Longrightarrow>
   snd (getStr_loop bytes idx str rd) = rd @ [idx..<length bytes]"
proof (induction "length bytes - idx" arbitrary: idx str rd rule: less_induct)
  case less
  show ?case
  proof (cases "idx < length bytes")
    case False
    then show ?thesis by (simp add: loop_done)
  next
    case True
    let ?ns = "map unat bytes"
    let ?b0 = "unat (bytes ! idx)"
    have d: "drop idx ?ns = ?b0 # drop (Suc idx) ?ns"
      using True by (simp add: Cons_nth_drop_Suc [symmetric])
    have v: "valid_utf8 (?b0 # drop (Suc idx) ?ns)" using less.prems d by simp
    have step: "snd (getStr_loop bytes idx str rd) = rd @ [idx..<length bytes]"
      if k: "0 < k" and le: "idx + k \<le> length bytes"
        and va: "valid_utf8 (drop (idx + k) ?ns)"
        and adv: "\<And>str rd. \<exists>str'. getStr_loop bytes idx str rd =
                    getStr_loop bytes (idx + k) str' (rd @ [idx..<idx + k])"
      for k
    proof -
      obtain str' where "getStr_loop bytes idx str rd =
          getStr_loop bytes (idx + k) str' (rd @ [idx..<idx + k])"
        using adv by blast
      moreover have "snd (getStr_loop bytes (idx + k) str' (rd @ [idx..<idx + k])) =
          (rd @ [idx..<idx + k]) @ [idx + k..<length bytes]"
        using k le va by (intro less.hyps) simp_all
      moreover have "[idx..<idx + k] @ [idx + k..<length bytes] = [idx..<length bytes]"
        using le by (metis le_add1 upt_add_eq_append le_Suc_ex)
      ultimately show ?thesis by simp
    qed
    consider "?b0 < 0x80" | "0xC2 \<le> ?b0" "?b0 \<le> 0xDF" | "0xE0 \<le> ?b0" "?b0 \<le> 0xEF"
      | "0xF0 \<le> ?b0" "?b0 \<le> 0xF4"
      using v by (auto split: if_splits)
    then show ?thesis
    proof cases
      case 1
      have "valid_utf8 (drop (idx + 1) ?ns)" using v 1 by simp
      moreover have "\<And>str rd. \<exists>str'. getStr_loop bytes idx str rd =
                    getStr_loop bytes (idx + 1) str' (rd @ [idx..<idx + 1])"
        using loop_advance_1 [OF True 1] by simp
      ultimately show ?thesis using True by (intro step [of 1]) simp_all
    next
      case 2
      then obtain b1 r where r: "drop (Suc idx) ?ns = b1 # r" and vr: "valid_utf8 r"
        using v by (auto split: list.splits)
      have e: "drop idx ?ns = [?b0, b1] @ r" using d r by simp
      have "idx + 2 \<le> length bytes" "drop (idx + 2) ?ns = r"
        using drop_cons_length [OF e] by (simp_all add: eval_nat_numeral)
      moreover have "\<And>str rd. \<exists>str'. getStr_loop bytes idx str rd =
                    getStr_loop bytes (idx + 2) str' (rd @ [idx..<idx + 2])"
        using loop_advance_2 [OF True] 2 by (simp add: upt_2)
      ultimately show ?thesis using vr by (intro step [of 2]) simp_all
    next
      case 3
      then obtain b1 b2 r where r: "drop (Suc idx) ?ns = b1 # b2 # r" and vr: "valid_utf8 r"
        using v by (auto split: list.splits if_splits)
      have e: "drop idx ?ns = [?b0, b1, b2] @ r" using d r by simp
      have "idx + 3 \<le> length bytes" "drop (idx + 3) ?ns = r"
        using drop_cons_length [OF e] by (simp_all add: eval_nat_numeral)
      moreover have "\<And>str rd. \<exists>str'. getStr_loop bytes idx str rd =
                    getStr_loop bytes (idx + 3) str' (rd @ [idx..<idx + 3])"
        using loop_advance_3 [OF True] 3 by (simp add: upt_3)
      ultimately show ?thesis using vr by (intro step [of 3]) simp_all
    next
      case 4
      then obtain b1 b2 b3 r where r: "drop (Suc idx) ?ns = b1 # b2 # b3 # r"
        and vr: "valid_utf8 r"
        using v by (auto split: list.splits if_splits)
      have e: "drop idx ?ns = [?b0, b1, b2, b3] @ r" using d r by simp
      have "idx + 4 \<le> length bytes" "drop (idx + 4) ?ns = r"
        using drop_cons_length [OF e] by (simp_all add: eval_nat_numeral)
      moreover have "\<And>str rd. \<exists>str'. getStr_loop bytes idx str rd =
                    getStr_loop bytes (idx + 4) str' (rd @ [idx..<idx + 4])"
        using loop_advance_4 [OF True] 4 by (simp add: upt_4)
      ultimately show ?thesis using vr by (intro step [of 4]) simp_all
    qed
  qed
qed

section \<open>Lemmas on \<open>setStr\<close> and \<open>setArr\<close>\<close>

lemma Uint8Array_new_in_memory:
  "in_memory p n s \<Longrightarrow> Uint8Array_new (buffer s) p n = Inr (nat p, nat n)"
  by (auto simp: in_memory_def Uint8Array_new_def)

lemma Uint8Array_new_outside:
  "\<not> in_memory p n s \<Longrightarrow> Uint8Array_new (buffer s) p n = Inl RangeError"
  by (auto simp: in_memory_def Uint8Array_new_def)

lemma view_set_fits:
  "length src \<le> n \<Longrightarrow>
   view_set (a, n) src buf = Inr (take a buf @ src @ drop (a + length src) buf)"
  by (simp add: view_set_def)

lemma view_put_terminator:
  assumes "a + length src + 1 \<le> length buf"
  shows "view_put (a, Suc (length src)) (length src) 0 (take a buf @ src @ drop (a + length src) buf)
         = take a buf @ (src @ [0]) @ drop (a + length src + 1) buf"
proof -
  have a: "length (take a buf) = a" using assms by simp
  have "drop (a + length src) buf = buf ! (a + length src) # drop (a + length src + 1) buf"
    using assms by (simp add: Cons_nth_drop_Suc)
  then have "(take a buf @ src @ drop (a + length src) buf)[a + length src := 0]
     = take a buf @ src @ 0 # drop (a + length src + 1) buf"
    using a by (simp add: list_update_append)
  then show ?thesis by (simp add: view_put_def)
qed

lemma setStr_run:
  assumes m: "malloc wasm (int (length (TextEncoder_encode str)) + 1) s = (p, s1)"
    and p: "p \<noteq> 0"
    and i: "in_memory p (int (length (TextEncoder_encode str)) + 1) s1"
    and c: "closure p (s1\<lparr>buffer := take (nat p) (buffer s1) @ (TextEncoder_encode str @ [0])
                @ drop (nat p + length (TextEncoder_encode str) + 1) (buffer s1)\<rparr>) = (r, s3)"
  shows "setStr wasm Status str closure s =
           (r, free wasm p s3,
            [Malloc (int (length (TextEncoder_encode str)) + 1) p, Closure p, Free p])"
proof -
  let ?b = "TextEncoder_encode str"
  have n: "nat (int (length ?b) + 1) = length ?b + 1" by simp
  have le: "nat p + length ?b + 1 \<le> length (buffer s1)"
    using i by (simp add: in_memory_def) linarith
  show ?thesis
    unfolding setStr_def Let_def m prod.case
    using p c
    by (cases r) (simp_all add: Uint8Array_new_in_memory [OF i] n view_set_fits view_put_terminator [OF le])
qed

lemma setArr_run:
  assumes m: "malloc wasm (int (length arr)) s = (p, s1)"
    and p: "p \<noteq> 0"
    and i: "in_memory p (int (length arr)) s1"
    and c: "closure p (s1\<lparr>buffer := take (nat p) (buffer s1) @ arr
                @ drop (nat p + length arr) (buffer s1)\<rparr>) = (r, s3)"
  shows "setArr wasm Status arr closure s =
           (r, free wasm p s3, [Malloc (int (length arr)) p, Closure p, Free p])"
proof -
  show ?thesis
    unfolding setArr_def Let_def m prod.case
    using p c
    by (cases r) (simp_all add: Uint8Array_new_in_memory [OF i] view_set_fits)
qed

lemma setStr_outside:
  assumes m: "malloc wasm (int (length (TextEncoder_encode str)) + 1) s = (p, s1)"
    and p: "p \<noteq> 0"
    and i: "\<not> in_memory p (int (length (TextEncoder_encode str)) + 1) s1"
  shows "setStr wasm Status str closure s =
           (Inl RangeError, s1, [Malloc (int (length (TextEncoder_encode str)) + 1) p])"
  unfolding setStr_def Let_def m prod.case
  using p by (simp add: Uint8Array_new_outside [OF i])

lemma setArr_outside:
  assumes m: "malloc wasm (int (length arr)) s = (p, s1)"
    and p: "p \<noteq> 0"
    and i: "\<not> in_memory p (int (length arr)) s1"
  shows "setArr wasm Status arr closure s =
           (Inl RangeError, s1, [Malloc (int (length arr)) p])"
  unfolding setArr_def Let_def m prod.case
  using p by (simp add: Uint8Array_new_outside [OF i])

lemma setStr_oom:
  assumes "malloc wasm (int (length (TextEncoder_encode str)) + 1) s = (0, s1)"
  shows "setStr wasm Status str closure s =
           (Inl (Thrown_SqliteError (out_of_memory Status)), s1,
            [Malloc (int (length (TextEncoder_encode str)) + 1) 0])"
  using assms by (simp add: setStr_def SqliteError_new_def out_of_memory_def)

lemma setArr_oom:
  assumes "malloc wasm (int (length arr)) s = (0, s1)"
  shows "setArr wasm Status arr closure s =
           (Inl (Thrown_SqliteError (out_of_memory Status)), s1,
            [Malloc (int (length arr)) 0])"
  using assms by (simp add: setArr_def SqliteError_new_def out_of_memory_def)

lemma test_malloc [simp]: "malloc (test_wasm p) n s = (p, s)"
  by (simp add: test_wasm_def)

lemma test_free [simp]: "free (test_wasm p) q s = s\<lparr>internal := internal s @ [q]\<rparr>"
  by (simp add: test_wasm_def)

lemma encode_abc: "TextEncoder_encode (js_lit ''abc'') = [0x61, 0x62, 0x63]"
  by (simp add: TextEncoder_encode_def utf8_encode_def utf8_bytes_def js_lit_def is_lead_def is_trail_def)

lemma encode_hello: "TextEncoder_encode hello = [0x68, 0xC3, 0xA9, 0x6C, 0x6C, 0x6F]"
  by (simp add: TextEncoder_encode_def utf8_encode_def utf8_bytes_def hello_def is_lead_def is_trail_def)

section \<open>Release of the allocation\<close>

text \<open>
  C2. When \<open>malloc\<close> answers the zero pointer, \<open>setStr\<close> and \<open>setArr\<close> throw a
  \<open>SqliteError\<close> whose message is "Out of memory." and whose code is \<open>Status.Unknown\<close>.
  The closure has not been invoked and \<open>free\<close> has not been called: the trace holds
  neither, and the world is the one \<open>malloc\<close> left.
\<close>

theorem out_of_memory_before_any_call:
  "(malloc wasm (int (length (TextEncoder_encode str)) + 1) s = (0, s1) \<longrightarrow>
      (case setStr wasm Status str closure s of (r, s', t) \<Rightarrow>
         r = Inl (Thrown_SqliteError (out_of_memory Status)) \<and> s' = s1
         \<and> closures t = [] \<and> frees t = []))
   \<and> (malloc wasm (int (length arr)) s = (0, s1) \<longrightarrow>
      (case setArr wasm Status arr closure s of (r, s', t) \<Rightarrow>
         r = Inl (Thrown_SqliteError (out_of_memory Status)) \<and> s' = s1
         \<and> closures t = [] \<and> frees t = []))"
  by (simp add: setStr_oom setArr_oom)

theorem out_of_memory_before_any_call_witness:
  "(case setStr (test_wasm 0) [(''Unknown'', -1)] (js_lit ''abc'') return_ptr test_world of
      (r, s', t) \<Rightarrow>
        r = Inl (Thrown_SqliteError
                  \<lparr>message = js_lit ''Out of memory.'', code = Some (-1),
                   name = ''SqliteError''\<rparr>)
        \<and> s' = test_world \<and> closures t = [] \<and> frees t = [])
   \<and> (case setArr (test_wasm 0) [(''Unknown'', -1)] [1, 2, 3] return_ptr test_world of
      (r, s', t) \<Rightarrow>
        r = Inl (Thrown_SqliteError
                  \<lparr>message = js_lit ''Out of memory.'', code = Some (-1),
                   name = ''SqliteError''\<rparr>)
        \<and> s' = test_world \<and> closures t = [] \<and> frees t = [])"
  using out_of_memory_before_any_call [where wasm = "test_wasm 0" and str = "js_lit ''abc''"
      and s = test_world and ?s1.0 = test_world and Status = "[(''Unknown'', -1)]"
      and closure = return_ptr and arr = "[1, 2, 3]"]
  by (simp add: out_of_memory_def Status_member_def)

text \<open>
  C1, as stated, fails: the view is made between the test of the pointer and the \<open>try\<close>
  block, and when \<open>malloc\<close> answers a non-zero number that is not the address of a span
  of its memory (past the end, or negative, as an address from \<open>2 ^ 31\<close> on arrives
  when read as a signed 32-bit number), the constructor of the view throws and the call is
  left without \<open>free\<close>.
\<close>

theorem free_skipped_when_view_fails:
  "fst (malloc (test_wasm 100) (int (length (TextEncoder_encode (js_lit ''abc''))) + 1) test_world)
      \<noteq> 0
   \<and> fst (setStr (test_wasm 100) [] (js_lit ''abc'') return_ptr test_world) = Inl RangeError
   \<and> frees (snd (snd (setStr (test_wasm 100) [] (js_lit ''abc'') return_ptr test_world))) = []
   \<and> fst (malloc (test_wasm (- 16)) (int (length [1, 2, 3 :: byte])) test_world) \<noteq> 0
   \<and> fst (setArr (test_wasm (- 16)) [] [1, 2, 3] return_ptr test_world) = Inl RangeError
   \<and> frees (snd (snd (setArr (test_wasm (- 16)) [] [1, 2, 3] return_ptr test_world))) = []"
  by (simp add: setStr_def setArr_def encode_abc Uint8Array_new_def test_world_def)

text \<open>
  C1, amended. When \<open>malloc\<close> answers a non-zero pointer and the requested bytes at that
  pointer lie inside the linear memory, \<open>setStr\<close> and \<open>setArr\<close> call \<open>free\<close> exactly
  once, on that pointer, whatever the closure returns or throws; the closure has been
  invoked once, before, and \<open>free\<close> is the last thing the call does.
\<close>

theorem free_once_on_every_exit:
  "(malloc wasm (int (length (TextEncoder_encode str)) + 1) s = (p, s1) \<and> p \<noteq> 0
      \<and> in_memory p (int (length (TextEncoder_encode str)) + 1) s1 \<longrightarrow>
      (case setStr wasm Status str closure s of (r, s', t) \<Rightarrow>
         frees t = [p] \<and> closures t = [p] \<and> last t = Free p))
   \<and> (malloc wasm (int (length arr)) s = (p, s1) \<and> p \<noteq> 0
      \<and> in_memory p (int (length arr)) s1 \<longrightarrow>
      (case setArr wasm Status arr closure s of (r, s', t) \<Rightarrow>
         frees t = [p] \<and> closures t = [p] \<and> last t = Free p))"
proof (intro conjI impI)
  assume a: "malloc wasm (int (length (TextEncoder_encode str)) + 1) s = (p, s1) \<and> p \<noteq> 0
      \<and> in_memory p (int (length (TextEncoder_encode str)) + 1) s1"
  obtain r s3 where
    "closure p (s1\<lparr>buffer := take (nat p) (buffer s1) @ (TextEncoder_encode str @ [0])
       @ drop (nat p + length (TextEncoder_encode str) + 1) (buffer s1)\<rparr>) = (r, s3)"
    by (metis surj_pair)
  with a have "setStr wasm Status str closure s =
           (r, free wasm p s3,
            [Malloc (int (length (TextEncoder_encode str)) + 1) p, Closure p, Free p])"
    by (simp add: setStr_run)
  then show "case setStr wasm Status str closure s of (r, s', t) \<Rightarrow>
         frees t = [p] \<and> closures t = [p] \<and> last t = Free p"
    by simp
next
  assume a: "malloc wasm (int (length arr)) s = (p, s1) \<and> p \<noteq> 0
      \<and> in_memory p (int (length arr)) s1"
  obtain r s3 where
    "closure p (s1\<lparr>buffer := take (nat p) (buffer s1) @ arr
       @ drop (nat p + length arr) (buffer s1)\<rparr>) = (r, s3)"
    by (metis surj_pair)
  with a have "setArr wasm Status arr closure s =
           (r, free wasm p s3, [Malloc (int (length arr)) p, Closure p, Free p])"
    by (simp add: setArr_run)
  then show "case setArr wasm Status arr closure s of (r, s', t) \<Rightarrow>
         frees t = [p] \<and> closures t = [p] \<and> last t = Free p"
    by simp
qed

theorem free_once_on_every_exit_witness:
  "(case setStr (test_wasm 4) [] (js_lit ''abc'') throw_boom test_world of (r, s', t) \<Rightarrow>
         frees t = [4] \<and> closures t = [4] \<and> last t = Free 4)
   \<and> (case setArr (test_wasm 4) [] [1, 2, 3] return_ptr test_world of (r, s', t) \<Rightarrow>
         frees t = [4] \<and> closures t = [4] \<and> last t = Free 4)"
  using free_once_on_every_exit [where wasm = "test_wasm 4" and str = "js_lit ''abc''"
      and s = test_world and p = 4 and ?s1.0 = test_world and Status = "[]"
      and closure = throw_boom and arr = "[1, 2, 3]"]
    free_once_on_every_exit [where wasm = "test_wasm 4" and str = "js_lit ''abc''"
      and s = test_world and p = 4 and ?s1.0 = test_world and Status = "[]"
      and closure = return_ptr and arr = "[1, 2, 3]"]
  by (simp add: encode_abc in_memory_def test_world_def)

text \<open>
  C3. After a successful allocation the closure is invoked, on the memory that holds the
  payload at the pointer, and the call ends as that invocation ends: when the closure
  throws, \<open>setStr\<close> and \<open>setArr\<close> throw that very value, and when it returns a value
  they return that very value (\<open>r\<close> below is either). Before that, \<open>free\<close> has been
  called on the pointer, after the closure and on the world the closure left. In the
  calls these hypotheses leave out, those in which \<open>malloc\<close> answers zero or a pointer
  at which no view can be made, the closure is not invoked at all.
\<close>

theorem closure_outcome_passes_through:
  "(malloc wasm (int (length (TextEncoder_encode str)) + 1) s = (p, s1) \<and> p \<noteq> 0
      \<and> in_memory p (int (length (TextEncoder_encode str)) + 1) s1
      \<and> closure p
           (s1\<lparr>buffer := take (nat p) (buffer s1) @ (TextEncoder_encode str @ [0])
              @ drop (nat p + length (TextEncoder_encode str) + 1) (buffer s1)\<rparr>) = (r, s3)
      \<longrightarrow>
      setStr wasm Status str closure s =
        (r, free wasm p s3,
         [Malloc (int (length (TextEncoder_encode str)) + 1) p, Closure p, Free p]))
   \<and> (malloc wasm (int (length (TextEncoder_encode str)) + 1) s = (p, s1)
      \<and> (p = 0 \<or> \<not> in_memory p (int (length (TextEncoder_encode str)) + 1) s1)
      \<longrightarrow>
      closures (snd (snd (setStr wasm Status str closure s))) = [])
   \<and> (malloc wasm (int (length arr)) s = (p, s1) \<and> p \<noteq> 0
      \<and> in_memory p (int (length arr)) s1
      \<and> closure p
           (s1\<lparr>buffer := take (nat p) (buffer s1) @ arr
              @ drop (nat p + length arr) (buffer s1)\<rparr>) = (r, s3)
      \<longrightarrow>
      setArr wasm Status arr closure s =
        (r, free wasm p s3, [Malloc (int (length arr)) p, Closure p, Free p]))
   \<and> (malloc wasm (int (length arr)) s = (p, s1)
      \<and> (p = 0 \<or> \<not> in_memory p (int (length arr)) s1)
      \<longrightarrow>
      closures (snd (snd (setArr wasm Status arr closure s))) = [])"
proof (intro conjI impI)
  assume "malloc wasm (int (length (TextEncoder_encode str)) + 1) s = (p, s1) \<and> p \<noteq> 0
      \<and> in_memory p (int (length (TextEncoder_encode str)) + 1) s1
      \<and> closure p
           (s1\<lparr>buffer := take (nat p) (buffer s1) @ (TextEncoder_encode str @ [0])
              @ drop (nat p + length (TextEncoder_encode str) + 1) (buffer s1)\<rparr>) = (r, s3)"
  then show "setStr wasm Status str closure s =
        (r, free wasm p s3,
         [Malloc (int (length (TextEncoder_encode str)) + 1) p, Closure p, Free p])"
    using setStr_run [where wasm = wasm and str = str and s = s and p = p and ?s1.0 = s1
        and closure = closure and r = r and ?s3.0 = s3 and Status = Status]
    by blast
next
  assume a: "malloc wasm (int (length (TextEncoder_encode str)) + 1) s = (p, s1)
      \<and> (p = 0 \<or> \<not> in_memory p (int (length (TextEncoder_encode str)) + 1) s1)"
  show "closures (snd (snd (setStr wasm Status str closure s))) = []"
  proof (cases "p = 0")
    case True
    with a show ?thesis by (simp add: setStr_oom)
  next
    case False
    with a show ?thesis by (simp add: setStr_outside)
  qed
next
  assume "malloc wasm (int (length arr)) s = (p, s1) \<and> p \<noteq> 0
      \<and> in_memory p (int (length arr)) s1
      \<and> closure p
           (s1\<lparr>buffer := take (nat p) (buffer s1) @ arr
              @ drop (nat p + length arr) (buffer s1)\<rparr>) = (r, s3)"
  then show "setArr wasm Status arr closure s =
        (r, free wasm p s3, [Malloc (int (length arr)) p, Closure p, Free p])"
    using setArr_run [where wasm = wasm and arr = arr and s = s and p = p and ?s1.0 = s1
        and closure = closure and r = r and ?s3.0 = s3 and Status = Status]
    by blast
next
  assume a: "malloc wasm (int (length arr)) s = (p, s1)
      \<and> (p = 0 \<or> \<not> in_memory p (int (length arr)) s1)"
  show "closures (snd (snd (setArr wasm Status arr closure s))) = []"
  proof (cases "p = 0")
    case True
    with a show ?thesis by (simp add: setArr_oom)
  next
    case False
    with a show ?thesis by (simp add: setArr_outside)
  qed
qed

theorem closure_outcome_passes_through_witness:
  "setStr (test_wasm 4) [] (js_lit ''abc'') throw_boom test_world
     = (Inl (Thrown ''boom''),
        \<lparr>buffer = [0, 0, 0, 0, 0x61, 0x62, 0x63, 0, 0, 0, 0, 0, 0, 0, 0, 0], internal = [4]\<rparr>,
        [Malloc 4 4, Closure 4, Free 4])
   \<and> setArr (test_wasm 4) [] [1, 2, 3] return_ptr test_world
     = (Inr 4,
        \<lparr>buffer = [0, 0, 0, 0, 1, 2, 3, 0, 0, 0, 0, 0, 0, 0, 0, 0], internal = [4]\<rparr>,
        [Malloc 3 4, Closure 4, Free 4])
   \<and> closures (snd (snd (setStr (test_wasm 0) [] (js_lit ''abc'') throw_boom test_world))) = []
   \<and> closures (snd (snd (setArr (test_wasm 100) [] [1, 2, 3] return_ptr test_world))) = []"
proof (intro conjI)
  show "setStr (test_wasm 4) [] (js_lit ''abc'') throw_boom test_world
     = (Inl (Thrown ''boom''),
        \<lparr>buffer = [0, 0, 0, 0, 0x61, 0x62, 0x63, 0, 0, 0, 0, 0, 0, 0, 0, 0], internal = [4]\<rparr>,
        [Malloc 4 4, Closure 4, Free 4])"
    using closure_outcome_passes_through [where wasm = "test_wasm 4" and Status = "[]"
        and str = "js_lit ''abc''" and closure = throw_boom and s = test_world and p = 4
        and ?s1.0 = test_world and r = "Inl (Thrown ''boom'')"
        and ?s3.0 = "\<lparr>buffer = [0, 0, 0, 0, 0x61, 0x62, 0x63, 0, 0, 0, 0, 0, 0, 0, 0, 0],
                       internal = []\<rparr>"
        and arr = "[1, 2, 3]"]
    by (simp add: encode_abc in_memory_def test_world_def throw_boom_def)
  show "setArr (test_wasm 4) [] [1, 2, 3] return_ptr test_world
     = (Inr 4,
        \<lparr>buffer = [0, 0, 0, 0, 1, 2, 3, 0, 0, 0, 0, 0, 0, 0, 0, 0], internal = [4]\<rparr>,
        [Malloc 3 4, Closure 4, Free 4])"
    using closure_outcome_passes_through [where wasm = "test_wasm 4" and Status = "[]"
        and str = "js_lit ''abc''" and closure = return_ptr and s = test_world and p = 4
        and ?s1.0 = test_world and r = "Inr 4"
        and ?s3.0 = "\<lparr>buffer = [0, 0, 0, 0, 1, 2, 3, 0, 0, 0, 0, 0, 0, 0, 0, 0],
                       internal = []\<rparr>"
        and arr = "[1, 2, 3]"]
    by (simp add: in_memory_def test_world_def return_ptr_def)
  show "closures (snd (snd (setStr (test_wasm 0) [] (js_lit ''abc'') throw_boom test_world))) = []"
    using closure_outcome_passes_through [where wasm = "test_wasm 0" and Status = "[]"
        and str = "js_lit ''abc''" and closure = throw_boom and s = test_world and p = 0
        and ?s1.0 = test_world and arr = "[1, 2, 3]"]
    by simp
  show "closures (snd (snd (setArr (test_wasm 100) [] [1, 2, 3] return_ptr test_world))) = []"
    using closure_outcome_passes_through [where wasm = "test_wasm 100" and Status = "[]"
        and str = "js_lit ''abc''" and closure = return_ptr and s = test_world and p = 100
        and ?s1.0 = test_world and arr = "[1, 2, 3]"]
    by (simp add: in_memory_def test_world_def)
qed

section \<open>What is written into the memory\<close>

text \<open>
  C4. \<open>setStr\<close> encodes the string in UTF-8 and asks \<open>malloc\<close> for the encoded length
  plus one. When the pointer is usable, the closure runs on a memory in which the view
  of that many bytes at the pointer shows the encoded bytes followed by one zero byte,
  and in which nothing outside that view has changed. For the string \<open>hello\<close> with an
  acute accent on the \<open>e\<close> this is an allocation of 7 bytes holding
  \<open>68 C3 A9 6C 6C 6F 00\<close>.
\<close>

theorem setStr_writes_encoding_and_terminator:
  assumes "malloc wasm (int (length (TextEncoder_encode str)) + 1) s = (p, s1)"
    and "p \<noteq> 0"
    and "in_memory p (int (length (TextEncoder_encode str)) + 1) s1"
  shows "\<exists>mem. setStr wasm Status str closure s =
           (case closure p (s1\<lparr>buffer := mem\<rparr>) of (r, s3) \<Rightarrow>
              (r, free wasm p s3,
               [Malloc (int (length (TextEncoder_encode str)) + 1) p, Closure p, Free p]))
         \<and> view_bytes (nat p, length (TextEncoder_encode str) + 1) mem
             = TextEncoder_encode str @ [0]
         \<and> length mem = length (buffer s1)
         \<and> (\<forall>i < length mem. i < nat p \<or> nat p + length (TextEncoder_encode str) + 1 \<le> i
                \<longrightarrow> mem ! i = buffer s1 ! i)"
proof -
  let ?b = "TextEncoder_encode str"
  let ?mem = "take (nat p) (buffer s1) @ (?b @ [0]) @ drop (nat p + length ?b + 1) (buffer s1)"
  have le: "nat p + length ?b + 1 \<le> length (buffer s1)"
    using assms(3) by (simp add: in_memory_def) linarith
  obtain r s3 where c: "closure p (s1\<lparr>buffer := ?mem\<rparr>) = (r, s3)" by (metis surj_pair)
  have 1: "setStr wasm Status str closure s =
           (case closure p (s1\<lparr>buffer := ?mem\<rparr>) of (r, s3) \<Rightarrow>
              (r, free wasm p s3, [Malloc (int (length ?b) + 1) p, Closure p, Free p]))"
    using setStr_run [where closure = closure, OF assms c] c by simp
  have 2: "view_bytes (nat p, length ?b + 1) ?mem = ?b @ [0]"
    using le by (simp add: view_bytes_def)
  have 3: "length ?mem = length (buffer s1)" using le by simp
  have 4: "\<forall>i < length ?mem. i < nat p \<or> nat p + length ?b + 1 \<le> i
             \<longrightarrow> ?mem ! i = buffer s1 ! i"
    using le by (auto simp: nth_append)
  from 1 2 3 4 show ?thesis by blast
qed

theorem setStr_writes_encoding_and_terminator_witness:
  "(\<exists>mem. setStr (test_wasm 4) [] hello read_memory test_world
            = (Inr mem, \<lparr>buffer = mem, internal = [4]\<rparr>, [Malloc 7 4, Closure 4, Free 4])
          \<and> view_bytes (4, 7) mem = [0x68, 0xC3, 0xA9, 0x6C, 0x6C, 0x6F, 0])
   \<and> TextEncoder_encode hello = [0x68, 0xC3, 0xA9, 0x6C, 0x6C, 0x6F]
   \<and> setStr (test_wasm 4) [] hello read_memory test_world
     = (Inr [0, 0, 0, 0, 0x68, 0xC3, 0xA9, 0x6C, 0x6C, 0x6F, 0, 0, 0, 0, 0, 0],
        \<lparr>buffer = [0, 0, 0, 0, 0x68, 0xC3, 0xA9, 0x6C, 0x6C, 0x6F, 0, 0, 0, 0, 0, 0],
         internal = [4]\<rparr>,
        [Malloc 7 4, Closure 4, Free 4])"
proof (intro conjI)
  have h1: "malloc (test_wasm 4) (int (length (TextEncoder_encode hello)) + 1) test_world
              = (4, test_world)"
    by simp
  have h2: "(4 :: int) \<noteq> 0" by simp
  have h3: "in_memory 4 (int (length (TextEncoder_encode hello)) + 1) test_world"
    by (simp add: encode_hello in_memory_def test_world_def)
  from setStr_writes_encoding_and_terminator [where closure = read_memory and Status = "[]",
      OF h1 h2 h3]
  obtain mem where
    a: "setStr (test_wasm 4) [] hello read_memory test_world =
          (case read_memory 4 (test_world\<lparr>buffer := mem\<rparr>) of (r, s3) \<Rightarrow>
             (r, free (test_wasm 4) 4 s3,
              [Malloc (int (length (TextEncoder_encode hello)) + 1) 4, Closure 4, Free 4]))"
    and b: "view_bytes (nat 4, length (TextEncoder_encode hello) + 1) mem
              = TextEncoder_encode hello @ [0]"
    by blast
  have "setStr (test_wasm 4) [] hello read_memory test_world
          = (Inr mem, \<lparr>buffer = mem, internal = [4]\<rparr>, [Malloc 7 4, Closure 4, Free 4])"
    using a by (simp add: encode_hello read_memory_def test_world_def)
  moreover have "view_bytes (4, 7) mem = [0x68, 0xC3, 0xA9, 0x6C, 0x6C, 0x6F, 0]"
    using b by (simp add: encode_hello eval_nat_numeral)
  ultimately
  show "\<exists>mem. setStr (test_wasm 4) [] hello read_memory test_world
            = (Inr mem, \<lparr>buffer = mem, internal = [4]\<rparr>, [Malloc 7 4, Closure 4, Free 4])
          \<and> view_bytes (4, 7) mem = [0x68, 0xC3, 0xA9, 0x6C, 0x6C, 0x6F, 0]"
    by blast
  show "TextEncoder_encode hello = [0x68, 0xC3, 0xA9, 0x6C, 0x6C, 0x6F]"
    by (rule encode_hello)
  show "setStr (test_wasm 4) [] hello read_memory test_world
     = (Inr [0, 0, 0, 0, 0x68, 0xC3, 0xA9, 0x6C, 0x6C, 0x6F, 0, 0, 0, 0, 0, 0],
        \<lparr>buffer = [0, 0, 0, 0, 0x68, 0xC3, 0xA9, 0x6C, 0x6C, 0x6F, 0, 0, 0, 0, 0, 0],
         internal = [4]\<rparr>,
        [Malloc 7 4, Closure 4, Free 4])"
    by (simp add: setStr_def encode_hello Uint8Array_new_def view_set_def view_put_def
        test_world_def read_memory_def)
qed

text \<open>
  C7. \<open>setArr\<close> follows the protocol of \<open>setStr\<close> without encoding and without a
  terminator: it asks \<open>malloc\<close> for the length of the payload and, when the pointer is
  usable, the closure runs on a memory in which the view of that many bytes at the pointer
  shows the payload itself and nothing outside that view has changed; \<open>free\<close> follows.
\<close>

theorem setArr_writes_payload_unmodified:
  assumes "malloc wasm (int (length arr)) s = (p, s1)"
    and "p \<noteq> 0"
    and "in_memory p (int (length arr)) s1"
  shows "\<exists>mem. setArr wasm Status arr closure s =
           (case closure p (s1\<lparr>buffer := mem\<rparr>) of (r, s3) \<Rightarrow>
              (r, free wasm p s3, [Malloc (int (length arr)) p, Closure p, Free p]))
         \<and> view_bytes (nat p, length arr) mem = arr
         \<and> length mem = length (buffer s1)
         \<and> (\<forall>i < length mem. i < nat p \<or> nat p + length arr \<le> i
                \<longrightarrow> mem ! i = buffer s1 ! i)"
proof -
  let ?mem = "take (nat p) (buffer s1) @ arr @ drop (nat p + length arr) (buffer s1)"
  have le: "nat p + length arr \<le> length (buffer s1)"
    using assms(3) by (simp add: in_memory_def) linarith
  obtain r s3 where c: "closure p (s1\<lparr>buffer := ?mem\<rparr>) = (r, s3)" by (metis surj_pair)
  have 1: "setArr wasm Status arr closure s =
           (case closure p (s1\<lparr>buffer := ?mem\<rparr>) of (r, s3) \<Rightarrow>
              (r, free wasm p s3, [Malloc (int (length arr)) p, Closure p, Free p]))"
    using setArr_run [where closure = closure, OF assms c] c by simp
  have 2: "view_bytes (nat p, length arr) ?mem = arr"
    using le by (simp add: view_bytes_def)
  have 3: "length ?mem = length (buffer s1)" using le by simp
  have 4: "\<forall>i < length ?mem. i < nat p \<or> nat p + length arr \<le> i
             \<longrightarrow> ?mem ! i = buffer s1 ! i"
    using le by (auto simp: nth_append)
  from 1 2 3 4 show ?thesis by blast
qed

theorem setArr_writes_payload_unmodified_witness:
  "(\<exists>mem. setArr (test_wasm 4) [] [0xFF, 0, 0x80] read_memory test_world
            = (Inr mem, \<lparr>buffer = mem, internal = [4]\<rparr>, [Malloc 3 4, Closure 4, Free 4])
          \<and> view_bytes (4, 3) mem = [0xFF, 0, 0x80])
   \<and> setArr (test_wasm 4) [] [0xFF, 0, 0x80] read_memory test_world
     = (Inr [0, 0, 0, 0, 0xFF, 0, 0x80, 0, 0, 0, 0, 0, 0, 0, 0, 0],
        \<lparr>buffer = [0, 0, 0, 0, 0xFF, 0, 0x80, 0, 0, 0, 0, 0, 0, 0, 0, 0], internal = [4]\<rparr>,
        [Malloc 3 4, Closure 4, Free 4])"
proof (intro conjI)
  have h1: "malloc (test_wasm 4) (int (length [0xFF, 0, 0x80 :: byte])) test_world
              = (4, test_world)"
    by simp
  have h2: "(4 :: int) \<noteq> 0" by simp
  have h3: "in_memory 4 (int (length [0xFF, 0, 0x80 :: byte])) test_world"
    by (simp add: in_memory_def test_world_def)
  from setArr_writes_payload_unmodified [where closure = read_memory and Status = "[]",
      OF h1 h2 h3]
  obtain mem where
    a: "setArr (test_wasm 4) [] [0xFF, 0, 0x80] read_memory test_world =
          (case read_memory 4 (test_world\<lparr>buffer := mem\<rparr>) of (r, s3) \<Rightarrow>
             (r, free (test_wasm 4) 4 s3,
              [Malloc (int (length [0xFF, 0, 0x80 :: byte])) 4, Closure 4, Free 4]))"
    and b: "view_bytes (nat 4, length [0xFF, 0, 0x80 :: byte]) mem = [0xFF, 0, 0x80]"
    by blast
  have "setArr (test_wasm 4) [] [0xFF, 0, 0x80] read_memory test_world
          = (Inr mem, \<lparr>buffer = mem, internal = [4]\<rparr>, [Malloc 3 4, Closure 4, Free 4])"
    using a by (simp add: read_memory_def test_world_def)
  moreover have "view_bytes (4, 3) mem = [0xFF, 0, 0x80]"
    using b by (simp add: eval_nat_numeral)
  ultimately
  show "\<exists>mem. setArr (test_wasm 4) [] [0xFF, 0, 0x80] read_memory test_world
            = (Inr mem, \<lparr>buffer = mem, internal = [4]\<rparr>, [Malloc 3 4, Closure 4, Free 4])
          \<and> view_bytes (4, 3) mem = [0xFF, 0, 0x80]"
    by blast
  show "setArr (test_wasm 4) [] [0xFF, 0, 0x80] read_memory test_world
     = (Inr [0, 0, 0, 0, 0xFF, 0, 0x80, 0, 0, 0, 0, 0, 0, 0, 0, 0],
        \<lparr>buffer = [0, 0, 0, 0, 0xFF, 0, 0x80, 0, 0, 0, 0, 0, 0, 0, 0, 0], internal = [4]\<rparr>,
        [Malloc 3 4, Closure 4, Free 4])"
    by (simp add: setArr_def Uint8Array_new_def view_set_def test_world_def read_memory_def)
qed

section \<open>Reads stay inside the view\<close>

text \<open>
  C10. When the bytes of the view are well-formed, complete UTF-8, the loop of the short
  path evaluates \<open>bytes[idx++]\<close> at the indices \<open>0, 1, \<dots>, len - 1\<close>, each once and in
  this order; so every index it reads is below \<open>len\<close>, also the ones read inside the
  branches for two, three and four bytes. This holds for a view of any length, the views
  of at most 16 bytes that \<open>getStr\<close> hands to the loop among them.
\<close>

theorem short_path_reads_inside_view:
  assumes "valid_utf8 (map unat bytes)"
  shows "snd (getStr_loop bytes 0 [] []) = [0..<length bytes]
         \<and> (\<forall>i \<in> set (snd (getStr_loop bytes 0 [] [])). i < length bytes)"
  using loop_reads [of 0 bytes "[]" "[]"] assms by simp

theorem short_path_reads_inside_view_witness:
  "snd (getStr_loop [0x68, 0xC3, 0xA9, 0x6C, 0x6C, 0x6F] 0 [] []) = [0, 1, 2, 3, 4, 5]"
proof -
  have "valid_utf8 (map unat [0x68, 0xC3, 0xA9, 0x6C, 0x6C, 0x6F :: byte])" by simp
  from short_path_reads_inside_view [OF this] show ?thesis by (simp add: upt_rec)
qed

section \<open>Writing a string and reading it back\<close>

lemma getStr_reads_back:
  assumes wf: "well_formed str" and nb: "\<not> starts_with_bom str"
    and l: "str_len wasm p s = (int (length (TextEncoder_encode str)), s')"
    and i: "0 \<le> p" "nat p + length (TextEncoder_encode str) \<le> length (buffer s')"
    and b: "take (length (TextEncoder_encode str)) (drop (nat p) (buffer s'))
              = TextEncoder_encode str"
  shows "getStr wasm p s = (Inr str, s')"
proof -
  let ?b = "TextEncoder_encode str"
  have v: "Uint8Array_new (buffer s') p (int (length ?b)) = Inr (nat p, length ?b)"
    using i by (simp add: Uint8Array_new_def)
  have vb: "view_bytes (nat p, length ?b) (buffer s') = ?b"
    using b by (simp add: view_bytes_def)
  show ?thesis
    unfolding getStr_def l prod.case Let_def
    by (simp add: v vb short_path_roundtrip [OF wf] bulk_path_roundtrip [OF wf nb])
qed

lemma test_str_len [simp]:
  "str_len (test_wasm p) q s = (int (c_strlen (drop (nat q) (buffer s))), s)"
  by (simp add: test_wasm_def)

lemma wf_hello: "well_formed hello" "\<not> starts_with_bom hello"
  by (simp_all add: hello_def is_lead_def is_trail_def starts_with_bom_def)

text \<open>
  C5, as stated, fails: a string is any sequence of 16-bit code units, and the encoder
  writes U+FFFD for a surrogate that has no partner, so such a string does not come back.
  Here \<open>str_len\<close> reports 3, the byte length of what was written.
\<close>

theorem lone_surrogate_not_restored:
  "TextEncoder_encode [0xD800] = [0xEF, 0xBF, 0xBD]
   \<and> fst (setStr (test_wasm 4) [] [0xD800] (getStr (test_wasm 4)) test_world)
       = (Inr [0xFFFD] :: string exn + jsstring)
   \<and> [0xFFFD] \<noteq> ([0xD800] :: jsstring)"
  by (simp add: setStr_def getStr_def TextEncoder_encode_def utf8_encode_def utf8_bytes_def
      is_lead_def is_trail_def Uint8Array_new_def view_set_def view_put_def view_bytes_def
      test_world_def c_strlen_def getStr_loop.simps at_def js_and_def append_code_def
      fromCharCode_def Let_def)

text \<open>
  C5, amended. For every well-formed string (every surrogate paired) that does not start
  with U+FEFF: when \<open>malloc\<close> hands out a usable pointer and \<open>str_len\<close>, asked at that
  pointer after the write, reports the byte length of the encoded string and leaves the
  memory as it is, \<open>setStr\<close> with \<open>getStr\<close> as its closure returns the string itself.
  The empty string, ASCII, multi-byte code points and surrogate pairs are all covered.
\<close>

theorem string_round_trip:
  assumes wf: "well_formed str" and nb: "\<not> starts_with_bom str"
    and m: "malloc wasm (int (length (TextEncoder_encode str)) + 1) s = (p, s1)"
    and p: "p \<noteq> 0"
    and i: "in_memory p (int (length (TextEncoder_encode str)) + 1) s1"
    and l: "str_len wasm p
              (s1\<lparr>buffer := take (nat p) (buffer s1) @ (TextEncoder_encode str @ [0])
                 @ drop (nat p + length (TextEncoder_encode str) + 1) (buffer s1)\<rparr>)
            = (int (length (TextEncoder_encode str)), s2)"
    and b: "buffer s2 = take (nat p) (buffer s1) @ (TextEncoder_encode str @ [0])
                 @ drop (nat p + length (TextEncoder_encode str) + 1) (buffer s1)"
  shows "setStr wasm Status str (getStr wasm) s =
           (Inr str, free wasm p s2,
            [Malloc (int (length (TextEncoder_encode str)) + 1) p, Closure p, Free p])"
proof -
  let ?b = "TextEncoder_encode str"
  have le: "0 \<le> p" "nat p + length ?b + 1 \<le> length (buffer s1)"
    using i by (simp_all add: in_memory_def) linarith
  have 1: "nat p + length ?b \<le> length (buffer s2)" using le b by simp
  have 2: "take (length ?b) (drop (nat p) (buffer s2)) = ?b" using le b by simp
  have "getStr wasm p
          (s1\<lparr>buffer := take (nat p) (buffer s1) @ (?b @ [0])
             @ drop (nat p + length ?b + 1) (buffer s1)\<rparr>) = (Inr str, s2)"
    using getStr_reads_back [OF wf nb l le(1) 1 2] .
  then show ?thesis
    by (rule setStr_run [where closure = "getStr wasm", OF m p i])
qed

theorem string_round_trip_witness:
  "setStr (test_wasm 4) [] hello (getStr (test_wasm 4)) test_world =
     (Inr hello :: string exn + jsstring,
      \<lparr>buffer = [0, 0, 0, 0, 0x68, 0xC3, 0xA9, 0x6C, 0x6C, 0x6F, 0, 0, 0, 0, 0, 0],
       internal = [4]\<rparr>,
      [Malloc 7 4, Closure 4, Free 4])"
  using string_round_trip [where wasm = "test_wasm 4" and str = hello and s = test_world and p = 4
      and ?s1.0 = test_world and Status = "[]"
      and ?s2.0 = "\<lparr>buffer = [0, 0, 0, 0, 0x68, 0xC3, 0xA9, 0x6C, 0x6C, 0x6F, 0, 0, 0, 0, 0, 0],
                     internal = []\<rparr>", OF wf_hello]
  by (simp add: encode_hello in_memory_def test_world_def c_strlen_def)

text \<open>
  C6 fails on the code: \<open>TextDecoder\<close> in its default mode drops a leading byte order
  mark, the loop of the short path keeps it. The bytes \<open>EF BB BF 61\<close> are well-formed
  UTF-8; the short path makes two code units of them, the bulk path one. Through
  \<open>getStr\<close>: of a 16-byte string that starts with U+FEFF the mark is kept, of a 17-byte
  string it is lost.
\<close>

theorem decoding_paths_differ_on_bom:
  "valid_utf8 (map unat [0xEF, 0xBB, 0xBF, 0x61 :: byte])
   \<and> fst (getStr_loop [0xEF, 0xBB, 0xBF, 0x61] 0 [] []) = [0xFEFF, 0x61]
   \<and> TextDecoder_decode [0xEF, 0xBB, 0xBF, 0x61] = [0x61]
   \<and> fst (getStr (test_wasm 0) 0 bom16_world) =
       (Inr [0xFEFF, 0x61, 0x61, 0x61, 0x61, 0x61, 0x61, 0x61, 0x61, 0x61, 0x61, 0x61, 0x61,
             0x61] :: string exn + jsstring)
   \<and> fst (getStr (test_wasm 0) 0 bom17_world) =
       (Inr [0x61, 0x61, 0x61, 0x61, 0x61, 0x61, 0x61, 0x61, 0x61, 0x61, 0x61, 0x61, 0x61,
             0x61] :: string exn + jsstring)"
  by (simp add: getStr_def bom16_world_def bom17_world_def c_strlen_def Uint8Array_new_def
      view_bytes_def getStr_loop.simps at_def js_and_def append_code_def fromCharCode_def
      TextDecoder_decode_def utf8_decoder.simps strip_bom_def utf16_units_def Let_def)

text \<open>
  Apart from the byte order mark the two paths agree: on the encoding of any sequence of
  scalar values that does not start with U+FEFF they give the same string.
\<close>

lemma paths_agree_without_bom:
  assumes "\<forall>cp \<in> set cps. scalar cp" and "strip_bom cps = cps"
  shows "fst (getStr_loop (utf8_encode cps) 0 [] []) = TextDecoder_decode (utf8_encode cps)"
proof -
  have "\<forall>cp \<in> set cps. cp < 0x110000" using assms(1) by (simp add: scalar_def)
  then have "fst (getStr_loop (utf8_encode cps) 0 [] []) = concat (map utf16_units cps)"
    by (simp add: short_path_decodes)
  then show ?thesis using bulk_path_decodes [OF assms(1)] assms(2) by simp
qed

section \<open>Construction of the typed error and its name\<close>





lemma reverse_property:
  "(n, v) \<in> set (Status :: Status_enum) \<Longrightarrow>
   \<exists>name. fold (\<lambda>(n, v) obj. obj(v \<mapsto> n)) Status m v = Some name \<and> (name, v) \<in> set Status"
proof -
  define f where "f = (\<lambda>(n :: string, v :: int) (obj :: int \<rightharpoonup> string). obj(v \<mapsto> n))"
  have "(n, v) \<in> set Status \<Longrightarrow> \<exists>name. fold f Status m v = Some name \<and> (name, v) \<in> set Status"
  proof (induction Status arbitrary: n rule: rev_induct)
    case Nil
    then show ?case by simp
  next
    case (snoc x xs)
    obtain n' v' where x: "x = (n', v')" by (cases x)
    have step: "fold f (xs @ [x]) m v = (if v' = v then Some n' else fold f xs m v)"
      by (simp add: x f_def)
    show ?case
    proof (cases "v' = v")
      case True
      then show ?thesis using x step by auto
    next
      case False
      then have "(n, v) \<in> set xs" using snoc.prems x by auto
      then obtain name where "fold f xs m v = Some name" and "(name, v) \<in> set xs"
        using snoc.IH by blast
      then show ?thesis using False step by auto
    qed
  qed
  then show "(n, v) \<in> set Status \<Longrightarrow>
    \<exists>name. fold (\<lambda>(n, v) obj. obj(v \<mapsto> n)) Status m v = Some name \<and> (name, v) \<in> set Status"
    by (simp add: f_def)
qed

lemma same_value_same_name:
  "distinct (map snd xs) \<Longrightarrow> (a, v) \<in> set xs \<Longrightarrow> (b, v) \<in> set xs \<Longrightarrow> a = b"
  by (induction xs) (auto simp: image_iff)

text \<open>
  C9. For every member of the enumeration \<open>Status\<close>, \<open>codeName\<close> of an error with that
  member's value is a name of the enumeration with that value, and it is not empty; when
  no two members share a value it is the member's own name. Member names are
  identifiers, hence non-empty. With code 19 the name is \<open>SqliteConstraint\<close>.
\<close>

theorem codeName_of_defined_status:
  assumes "(n, v) \<in> set Status" and "\<forall>(n, v) \<in> set Status. n \<noteq> []" and "code e = Some v"
  shows "\<exists>name. codeName Status e = Some name \<and> name \<noteq> [] \<and> (name, v) \<in> set Status
           \<and> (distinct (map snd Status) \<longrightarrow> name = n)"
proof -
  obtain name where 1: "Status_reverse Status v = Some name" and 2: "(name, v) \<in> set Status"
    using reverse_property [OF assms(1)] unfolding Status_reverse_def by blast
  have "name \<noteq> []" using 2 assms(2) by auto
  moreover have "distinct (map snd Status) \<longrightarrow> name = n"
    using same_value_same_name [of Status name v n] 2 assms(1) by blast
  ultimately show ?thesis using 1 2 assms(3) by (simp add: codeName_def)
qed

theorem codeName_of_defined_status_witness:
  "codeName test_Status \<lparr>message = [], code = Some 19, name = ''SqliteError''\<rparr>
     = Some ''SqliteConstraint''"
proof -
  have 1: "(''SqliteConstraint'', 19) \<in> set test_Status" by (simp add: test_Status_def)
  have 2: "\<forall>(n, v) \<in> set test_Status. n \<noteq> []" by (simp add: test_Status_def)
  have 3: "code \<lparr>message = [], code = Some 19, name = ''SqliteError''\<rparr> = Some 19" by simp
  have 4: "distinct (map snd test_Status)" by (simp add: test_Status_def)
  from codeName_of_defined_status [OF 1 2 3] 4 show ?thesis by auto
qed

end
